theory Spec2Isabelle
  imports Main
begin

section \<open>Atomic Chess: the class ChessVar of ChessVar.py\<close>

text \<open>
  The Python class keeps three fields: the board (a list of eight lists of eight
  one-character strings), the side to move and the game state. Every method is modelled
  as a function on a record of these fields. A Python exception is the left injection of
  a sum type. Characters are the 8-bit characters of HOL, so a position string is a list
  of such characters.
\<close>

subsection \<open>Python primitives used by the class\<close>

datatype error = ValueError | IndexError

text \<open>\<open>xs[i]\<close>: a negative index counts from the end, anything else out of range raises.\<close>

definition py_index :: "'a list \<Rightarrow> int \<Rightarrow> error + 'a" where
  "py_index xs i =
     (if 0 \<le> i \<and> i < int (length xs) then Inr (xs ! nat i)
      else if - int (length xs) \<le> i \<and> i < 0 then Inr (xs ! nat (i + int (length xs)))
      else Inl IndexError)"

text \<open>\<open>xs[i] = v\<close>, with the same treatment of the index.\<close>

definition py_store :: "'a list \<Rightarrow> int \<Rightarrow> 'a \<Rightarrow> error + 'a list" where
  "py_store xs i v =
     (if 0 \<le> i \<and> i < int (length xs) then Inr (xs[nat i := v])
      else if - int (length xs) \<le> i \<and> i < 0 then Inr (xs[nat (i + int (length xs)) := v])
      else Inl IndexError)"

text \<open>\<open>int(c)\<close> for a one-character string: a decimal digit, or ValueError.\<close>

definition py_int :: "char \<Rightarrow> error + int" where
  "py_int c =
     (if 48 \<le> (of_char c :: nat) \<and> (of_char c :: nat) \<le> 57
      then Inr (int (of_char c) - 48) else Inl ValueError)"

definition ord :: "char \<Rightarrow> int" where
  "ord c = int (of_char c)"

text \<open>
  \<open>str.islower\<close>, \<open>str.isupper\<close> and \<open>str.upper\<close> on a one-character string. The board
  only ever holds the letters of the initial position and the blank (lemma
  \<open>reachable_pieces_only\<close> below), so the ASCII letters are what matters; on any other
  character the three functions say "no letter".
\<close>

definition islower :: "char \<Rightarrow> bool" where
  "islower c = (97 \<le> (of_char c :: nat) \<and> (of_char c :: nat) \<le> 122)"

definition isupper :: "char \<Rightarrow> bool" where
  "isupper c = (65 \<le> (of_char c :: nat) \<and> (of_char c :: nat) \<le> 90)"

definition upper :: "char \<Rightarrow> char" where
  "upper c = (if islower c then char_of ((of_char c :: nat) - 32) else c)"

text \<open>\<open>x in s\<close> for a one-character string \<open>x\<close> and a string \<open>s\<close>.\<close>

definition py_in :: "char \<Rightarrow> string \<Rightarrow> bool" where
  "py_in x s = (x \<in> set s)"

subsection \<open>The state of a game\<close>

datatype player = WHITE | BLACK

datatype outcome = UNFINISHED | WHITE_WON | BLACK_WON

type_synonym board = "char list list"

record chess_var =
  board :: board
  turn :: player
  game_state :: outcome

definition initialize_board :: board where
  "initialize_board =
     [''rnbqkbnr'',
      ''pppppppp'',
      ''        '',
      ''        '',
      ''        '',
      ''        '',
      ''PPPPPPPP'',
      ''RNBQKBNR'']"

definition init :: chess_var where
  "init = \<lparr>board = initialize_board, turn = WHITE, game_state = UNFINISHED\<rparr>"

definition get_game_state :: "chess_var \<Rightarrow> outcome" where
  "get_game_state s = game_state s"

text \<open>\<open>self._board[r][c]\<close> and \<open>self._board[r][c] = v\<close>. The rows are separate lists.\<close>

definition board_get :: "board \<Rightarrow> int \<Rightarrow> int \<Rightarrow> error + char" where
  "board_get b r c =
     (case py_index b r of Inl e \<Rightarrow> Inl e | Inr row \<Rightarrow> py_index row c)"

definition board_set :: "board \<Rightarrow> int \<Rightarrow> int \<Rightarrow> char \<Rightarrow> error + board" where
  "board_set b r c v =
     (case py_index b r of Inl e \<Rightarrow> Inl e
      | Inr row \<Rightarrow>
          (case py_store row c v of Inl e \<Rightarrow> Inl e
           | Inr row' \<Rightarrow> py_store b r row'))"

subsection \<open>\<open>_convert_to_indices\<close>\<close>

text \<open>
  \<open>col, row = position\<close> raises ValueError unless the string has exactly two characters;
  \<open>int(row)\<close> raises ValueError unless the second one is a digit.
\<close>

definition convert_to_indices :: "string \<Rightarrow> error + (int \<times> int)" where
  "convert_to_indices position =
     (case position of
        [col, row] \<Rightarrow>
          (case py_int row of Inl e \<Rightarrow> Inl e
           | Inr n \<Rightarrow> Inr (8 - n, ord col - ord (CHR ''a'')))
      | _ \<Rightarrow> Inl ValueError)"

subsection \<open>\<open>_is_valid_bishop_rook_queen_move\<close>\<close>

text \<open>
  A step of a walk is \<open>1 if end > start else -1\<close>; the three while loops carry the
  comparison that chose the step. Each loop ends: it stops at the end square, at an
  occupied square, or with IndexError once the index leaves the list.
\<close>

definition step :: "bool \<Rightarrow> int" where
  "step forward = (if forward then 1 else -1)"

function diagonal_walk :: "board \<Rightarrow> int \<Rightarrow> int \<Rightarrow> int \<Rightarrow> int \<Rightarrow> bool \<Rightarrow> bool \<Rightarrow> error + bool" where
  "diagonal_walk b current_row current_col end_row end_col down right =
     (if current_row \<noteq> end_row \<and> current_col \<noteq> end_col then
        (case board_get b current_row current_col of Inl e \<Rightarrow> Inl e
         | Inr x \<Rightarrow>
             if x \<noteq> CHR '' '' then Inr False
             else diagonal_walk b (current_row + step down) (current_col + step right)
                    end_row end_col down right)
      else Inr True)"
  by pat_completeness auto
termination
  by (relation "measure (\<lambda>(b, cr, cc, er, ec, down, right).
        if down then nat (int (length b) - cr) else nat (cr + int (length b) + 1))")
     (auto simp: board_get_def py_index_def step_def split: if_splits sum.splits)

declare diagonal_walk.simps [simp del]

function horizontal_walk :: "board \<Rightarrow> int \<Rightarrow> int \<Rightarrow> int \<Rightarrow> bool \<Rightarrow> error + bool" where
  "horizontal_walk b start_row current_col end_col right =
     (if current_col \<noteq> end_col then
        (case board_get b start_row current_col of Inl e \<Rightarrow> Inl e
         | Inr x \<Rightarrow>
             if x \<noteq> CHR '' '' then Inr False
             else horizontal_walk b start_row (current_col + step right) end_col right)
      else Inr True)"
  by pat_completeness auto
termination
  by (relation "measure (\<lambda>(b, sr, cc, ec, right).
        case py_index b sr of Inl e \<Rightarrow> 0
        | Inr row \<Rightarrow> if right then nat (int (length row) - cc)
                     else nat (cc + int (length row) + 1))")
     (auto simp: board_get_def py_index_def step_def split: if_splits sum.splits)

declare horizontal_walk.simps [simp del]

function vertical_walk :: "board \<Rightarrow> int \<Rightarrow> int \<Rightarrow> int \<Rightarrow> bool \<Rightarrow> error + bool" where
  "vertical_walk b current_row start_col end_row down =
     (if current_row \<noteq> end_row then
        (case board_get b current_row start_col of Inl e \<Rightarrow> Inl e
         | Inr x \<Rightarrow>
             if x \<noteq> CHR '' '' then Inr False
             else vertical_walk b (current_row + step down) start_col end_row down)
      else Inr True)"
  by pat_completeness auto
termination
  by (relation "measure (\<lambda>(b, cr, sc, er, down).
        if down then nat (int (length b) - cr) else nat (cr + int (length b) + 1))")
     (auto simp: board_get_def py_index_def step_def split: if_splits sum.splits)

declare vertical_walk.simps [simp del]

text \<open>
  The first \<open>if\<close> returns from inside when the move is diagonal and falls through to the
  second otherwise; the second returns from inside when the move is straight.
\<close>

definition is_valid_bishop_rook_queen_move ::
  "board \<Rightarrow> char \<Rightarrow> int \<Rightarrow> int \<Rightarrow> int \<Rightarrow> int \<Rightarrow> error + bool" where
  "is_valid_bishop_rook_queen_move b piece start_row start_col end_row end_col =
     (if (upper piece = CHR ''B'' \<or> upper piece = CHR ''Q'')
         \<and> \<bar>end_row - start_row\<bar> = \<bar>end_col - start_col\<bar>
      then diagonal_walk b (start_row + step (end_row > start_row))
             (start_col + step (end_col > start_col)) end_row end_col
             (end_row > start_row) (end_col > start_col)
      else if (upper piece = CHR ''R'' \<or> upper piece = CHR ''Q'')
              \<and> (start_row = end_row \<or> start_col = end_col)
      then (if start_row = end_row
            then horizontal_walk b start_row (start_col + step (end_col > start_col))
                   end_col (end_col > start_col)
            else vertical_walk b (start_row + step (end_row > start_row)) start_col
                   end_row (end_row > start_row))
      else Inr False)"

subsection \<open>\<open>_is_valid_move\<close>\<close>

text \<open>
  \<open>a and b\<close> evaluates \<open>b\<close> only when \<open>a\<close> holds; \<open>b\<close> may read the board and
  so may raise.
\<close>

definition and_then :: "bool \<Rightarrow> error + bool \<Rightarrow> error + bool" where
  "and_then a b = (if a then b else Inr False)"

definition cell_is :: "board \<Rightarrow> int \<Rightarrow> int \<Rightarrow> char \<Rightarrow> error + bool" where
  "cell_is b r c v = (case board_get b r c of Inl e \<Rightarrow> Inl e | Inr x \<Rightarrow> Inr (x = v))"

text \<open>
  The pawn block. \<open>Some r\<close> is \<open>return r\<close>; \<open>None\<close> is falling out of the block, which
  only the white branch does (the black branch ends in \<open>return False\<close>).
\<close>

definition pawn_block ::
  "board \<Rightarrow> char \<Rightarrow> char \<Rightarrow> int \<Rightarrow> int \<Rightarrow> int \<Rightarrow> int \<Rightarrow> error + bool option" where
  "pawn_block b piece target start_row start_col end_row end_col =
     (if isupper piece then
        (case and_then (start_row = 6 \<and> end_row = 4 \<and> start_col = end_col)
                (case cell_is b 5 start_col (CHR '' '') of Inl e \<Rightarrow> Inl e
                 | Inr empty5 \<Rightarrow> and_then empty5 (cell_is b 4 start_col (CHR '' ''))) of
           Inl e \<Rightarrow> Inl e
         | Inr True \<Rightarrow> Inr (Some True)
         | Inr False \<Rightarrow>
             (case and_then (end_row = start_row - 1 \<and> start_col = end_col)
                     (cell_is b end_row end_col (CHR '' '')) of
                Inl e \<Rightarrow> Inl e
              | Inr True \<Rightarrow> Inr (Some True)
              | Inr False \<Rightarrow>
                  if end_row = start_row - 1 \<and> \<bar>start_col - end_col\<bar> = 1
                     \<and> target \<noteq> CHR '' ''
                  then Inr (Some True) else Inr None))
      else
        (case and_then (start_row = 1 \<and> end_row = 3 \<and> start_col = end_col)
                (case cell_is b 2 start_col (CHR '' '') of Inl e \<Rightarrow> Inl e
                 | Inr empty2 \<Rightarrow> and_then empty2 (cell_is b 3 start_col (CHR '' ''))) of
           Inl e \<Rightarrow> Inl e
         | Inr True \<Rightarrow> Inr (Some True)
         | Inr False \<Rightarrow>
             (case and_then (end_row = start_row + 1 \<and> start_col = end_col)
                     (cell_is b end_row end_col (CHR '' '')) of
                Inl e \<Rightarrow> Inl e
              | Inr True \<Rightarrow> Inr (Some True)
              | Inr False \<Rightarrow>
                  if end_row = start_row + 1 \<and> \<bar>start_col - end_col\<bar> = 1
                     \<and> target \<noteq> CHR '' ''
                  then Inr (Some True) else Inr (Some False))))"

text \<open>Everything after the pawn block: knight, bishop/rook/queen, king, \<open>return False\<close>.\<close>

definition after_pawn_block ::
  "board \<Rightarrow> char \<Rightarrow> int \<Rightarrow> int \<Rightarrow> int \<Rightarrow> int \<Rightarrow> error + bool" where
  "after_pawn_block b piece start_row start_col end_row end_col =
     (let row_diff = \<bar>end_row - start_row\<bar>; col_diff = \<bar>end_col - start_col\<bar> in
      if upper piece = CHR ''N''
         \<and> ((row_diff = 2 \<and> col_diff = 1) \<or> (row_diff = 1 \<and> col_diff = 2))
      then Inr True
      else if upper piece \<in> set ''BRQ''
      then is_valid_bishop_rook_queen_move b piece start_row start_col end_row end_col
      else if upper piece = CHR ''K''
              \<and> \<bar>end_row - start_row\<bar> \<le> 1 \<and> \<bar>end_col - start_col\<bar> \<le> 1
      then Inr True
      else Inr False)"

text \<open>
  The two board reads come first, before the test that the coordinates are on the
  board.
\<close>

definition is_valid_move :: "chess_var \<Rightarrow> string \<Rightarrow> string \<Rightarrow> error + bool" where
  "is_valid_move s start endp =
     (case convert_to_indices start of Inl e \<Rightarrow> Inl e
      | Inr (start_row, start_col) \<Rightarrow>
     (case convert_to_indices endp of Inl e \<Rightarrow> Inl e
      | Inr (end_row, end_col) \<Rightarrow>
     (case board_get (board s) start_row start_col of Inl e \<Rightarrow> Inl e
      | Inr piece \<Rightarrow>
     (case board_get (board s) end_row end_col of Inl e \<Rightarrow> Inl e
      | Inr target \<Rightarrow>
        if (turn s = WHITE \<and> islower piece) \<or> (turn s = BLACK \<and> isupper piece)
        then Inr False
        else if start = endp
                \<or> \<not> (0 \<le> start_row \<and> start_row < 8 \<and> 0 \<le> start_col \<and> start_col < 8
                      \<and> 0 \<le> end_row \<and> end_row < 8 \<and> 0 \<le> end_col \<and> end_col < 8)
        then Inr False
        else if upper piece = CHR ''K'' \<and> target \<noteq> CHR '' ''
        then Inr False
        else if upper piece = CHR ''P''
        then (case pawn_block (board s) piece target start_row start_col end_row end_col of
                Inl e \<Rightarrow> Inl e
              | Inr (Some r) \<Rightarrow> Inr r
              | Inr None \<Rightarrow>
                  after_pawn_block (board s) piece start_row start_col end_row end_col)
        else after_pawn_block (board s) piece start_row start_col end_row end_col))))"

subsection \<open>\<open>_handle_explosion\<close>\<close>

definition directions :: "(int \<times> int) list" where
  "directions = [(-1, -1), (-1, 0), (-1, 1), (0, -1), (0, 1), (1, -1), (1, 0), (1, 1)]"

text \<open>The first loop: clear every neighbour that is on the board and not in \<open>'Pp '\<close>.\<close>

fun clear_neighbours :: "(int \<times> int) list \<Rightarrow> board \<Rightarrow> int \<Rightarrow> int \<Rightarrow> error + board" where
  "clear_neighbours [] b row col = Inr b"
| "clear_neighbours ((dr, dc) # ds) b row col =
     (let r = row + dr; c = col + dc in
      if 0 \<le> r \<and> r < 8 \<and> 0 \<le> c \<and> c < 8 then
        (case board_get b r c of Inl e \<Rightarrow> Inl e
         | Inr x \<Rightarrow>
             if \<not> py_in x ''Pp '' then
               (case board_set b r c (CHR '' '') of Inl e \<Rightarrow> Inl e
                | Inr b' \<Rightarrow> clear_neighbours ds b' row col)
             else clear_neighbours ds b row col)
      else clear_neighbours ds b row col)"

text \<open>The second loop: look for a king on the nine squares, on the board as it is now.\<close>

fun king_in_range :: "(int \<times> int) list \<Rightarrow> board \<Rightarrow> int \<Rightarrow> int \<Rightarrow> outcome \<Rightarrow> error + outcome" where
  "king_in_range [] b row col g = Inr g"
| "king_in_range ((dr, dc) # ds) b row col g =
     (let r = row + dr; c = col + dc in
      if 0 \<le> r \<and> r < 8 \<and> 0 \<le> c \<and> c < 8 then
        (case board_get b r c of Inl e \<Rightarrow> Inl e
         | Inr x \<Rightarrow>
             (let g1 = (if x = CHR ''K'' then BLACK_WON else g) in
              (case board_get b r c of Inl e \<Rightarrow> Inl e
               | Inr y \<Rightarrow>
                   king_in_range ds b row col (if y = CHR ''k'' then WHITE_WON else g1))))
      else king_in_range ds b row col g)"

definition handle_explosion :: "chess_var \<Rightarrow> int \<Rightarrow> int \<Rightarrow> error + chess_var" where
  "handle_explosion s row col =
     (case board_set (board s) row col (CHR '' '') of Inl e \<Rightarrow> Inl e
      | Inr b1 \<Rightarrow>
     (case clear_neighbours directions b1 row col of Inl e \<Rightarrow> Inl e
      | Inr b2 \<Rightarrow>
     (case king_in_range (directions @ [(0, 0)]) b2 row col (game_state s) of
        Inl e \<Rightarrow> Inl e
      | Inr g \<Rightarrow> Inr (s\<lparr>board := b2, game_state := g\<rparr>))))"

subsection \<open>\<open>_is_king_captured\<close>\<close>

definition is_king_captured :: "board \<Rightarrow> bool" where
  "is_king_captured b =
     (case fold (\<lambda>row (white_king, black_king).
                  (if CHR ''K'' \<in> set row then True else white_king,
                   if CHR ''k'' \<in> set row then True else black_king))
             b (False, False) of
        (white_king, black_king) \<Rightarrow> \<not> white_king \<or> \<not> black_king)"

subsection \<open>\<open>make_move\<close>\<close>

text \<open>
  The result is the returned boolean and the state after the call. An exception leaves
  the call without a result; on a board of eight rows of eight cells it can only come
  from \<open>_is_valid_move\<close>, which changes nothing (lemma \<open>make_move_raises_in_validation\<close>
  below).
\<close>

definition make_move :: "chess_var \<Rightarrow> string \<Rightarrow> string \<Rightarrow> error + (bool \<times> chess_var)" where
  "make_move s start endp =
     (if game_state s \<noteq> UNFINISHED then Inr (False, s)
      else
     (case is_valid_move s start endp of Inl e \<Rightarrow> Inl e
      | Inr False \<Rightarrow> Inr (False, s)
      | Inr True \<Rightarrow>
     (case convert_to_indices start of Inl e \<Rightarrow> Inl e
      | Inr (start_row, start_col) \<Rightarrow>
     (case convert_to_indices endp of Inl e \<Rightarrow> Inl e
      | Inr (end_row, end_col) \<Rightarrow>
     (case board_get (board s) start_row start_col of Inl e \<Rightarrow> Inl e
      | Inr piece \<Rightarrow>
     (case board_get (board s) end_row end_col of Inl e \<Rightarrow> Inl e
      | Inr target \<Rightarrow>
     (case board_set (board s) end_row end_col piece of Inl e \<Rightarrow> Inl e
      | Inr b1 \<Rightarrow>
     (case board_set b1 start_row start_col (CHR '' '') of Inl e \<Rightarrow> Inl e
      | Inr b2 \<Rightarrow>
     (case (if target \<noteq> CHR '' '' then handle_explosion (s\<lparr>board := b2\<rparr>) end_row end_col
            else Inr (s\<lparr>board := b2\<rparr>)) of Inl e \<Rightarrow> Inl e
      | Inr s1 \<Rightarrow>
          (let s2 = s1\<lparr>turn := (if turn s1 = WHITE then BLACK else WHITE)\<rparr> in
           Inr (True,
                if is_king_captured (board s2)
                then s2\<lparr>game_state := (if turn s2 = WHITE then BLACK_WON else WHITE_WON)\<rparr>
                else s2)))))))))))"

text \<open>A sequence of calls on one object, as a caller makes them.\<close>

fun play :: "chess_var \<Rightarrow> (string \<times> string) list \<Rightarrow> error + chess_var" where
  "play s [] = Inr s"
| "play s ((start, endp) # ms) =
     (case make_move s start endp of Inl e \<Rightarrow> Inl e | Inr (ok, s') \<Rightarrow> play s' ms)"

subsection \<open>Notions used to state the properties\<close>

text \<open>The shape every board of a game has: eight rows of eight cells.\<close>

definition wf_board :: "board \<Rightarrow> bool" where
  "wf_board b = (length b = 8 \<and> list_all (\<lambda>row. length row = 8) b)"

definition on_board :: "int \<Rightarrow> int \<Rightarrow> bool" where
  "on_board r c = (0 \<le> r \<and> r < 8 \<and> 0 \<le> c \<and> c < 8)"

text \<open>Reading and writing a cell whose coordinates are known to be on the board.\<close>

definition cell :: "board \<Rightarrow> int \<Rightarrow> int \<Rightarrow> char" where
  "cell b r c = b ! nat r ! nat c"

definition put :: "board \<Rightarrow> int \<Rightarrow> int \<Rightarrow> char \<Rightarrow> board" where
  "put b r c v = b[nat r := (b ! nat r)[nat c := v]]"

text \<open>A square next to \<open>(row, col)\<close>: one of the eight around it.\<close>

definition neighbour :: "int \<Rightarrow> int \<Rightarrow> int \<Rightarrow> int \<Rightarrow> bool" where
  "neighbour r c row col = (\<bar>r - row\<bar> \<le> 1 \<and> \<bar>c - col\<bar> \<le> 1 \<and> (r, c) \<noteq> (row, col))"

text \<open>
  The board after the two assignments of \<open>make_move\<close> that execute the move: the piece
  stands on the end square and the start square is blank.
\<close>

definition relocate :: "board \<Rightarrow> int \<Rightarrow> int \<Rightarrow> int \<Rightarrow> int \<Rightarrow> board" where
  "relocate b sr sc er ec = put (put b er ec (cell b sr sc)) sr sc (CHR '' '')"

text \<open>The last two steps of \<open>make_move\<close>: switching turns and the test for a lost king.\<close>

definition finish_move :: "chess_var \<Rightarrow> chess_var" where
  "finish_move s1 =
     (let s2 = s1\<lparr>turn := (if turn s1 = WHITE then BLACK else WHITE)\<rparr> in
      if is_king_captured (board s2)
      then s2\<lparr>game_state := (if turn s2 = WHITE then BLACK_WON else WHITE_WON)\<rparr>
      else s2)"

text \<open>The number of cells that hold a piece.\<close>

definition occupied :: "board \<Rightarrow> nat" where
  "occupied b = sum_list (map (\<lambda>row. length (filter (\<lambda>x. x \<noteq> CHR '' '') row)) b)"

text \<open>The states a game can be in: the initial one, and those that calls of \<open>make_move\<close> lead to.\<close>

inductive reachable :: "chess_var \<Rightarrow> bool" where
  reachable_init: "reachable init"
| reachable_move: "reachable s \<Longrightarrow> make_move s start endp = Inr (ok, s') \<Longrightarrow> reachable s'"

text \<open>A board that holds nothing but the letters of the initial position and blanks.\<close>

definition pieces_only :: "board \<Rightarrow> bool" where
  "pieces_only b = list_all (list_all (\<lambda>x. py_in x ''rnbqkpRNBQKP '')) b"

text \<open>
  The squares strictly between a start and an end square, walking from the start one
  step at a time in the direction of the end.
\<close>

definition squares_between :: "int \<Rightarrow> int \<Rightarrow> int \<Rightarrow> int \<Rightarrow> (int \<times> int) list" where
  "squares_between sr sc er ec =
     map (\<lambda>k. (sr + int k * sgn (er - sr), sc + int k * sgn (ec - sc)))
         [1..<nat (max \<bar>er - sr\<bar> \<bar>ec - sc\<bar>)]"

text \<open>
  The lines of travel: a bishop's deltas are equal in size, exactly one of a rook's is
  zero, a queen's satisfy either.
\<close>

definition line_of_travel :: "char \<Rightarrow> int \<Rightarrow> int \<Rightarrow> bool" where
  "line_of_travel piece dr dc =
     (if upper piece = CHR ''B'' then \<bar>dr\<bar> = \<bar>dc\<bar>
      else if upper piece = CHR ''R'' then (dr = 0) \<noteq> (dc = 0)
      else \<bar>dr\<bar> = \<bar>dc\<bar> \<or> (dr = 0) \<noteq> (dc = 0))"

text \<open>Three positions of games played from the initial position.\<close>

definition after_Nd5_a5 :: chess_var where
  \<comment> \<open>1. Nc3 a6 2. Nd5 a5, White to move\<close>
  "after_Nd5_a5 =
     \<lparr>board = [''rnbqkbnr'', '' ppppppp'', ''        '', ''p  N    '',
               ''        '', ''        '', ''PPPPPPPP'', ''R BQKBNR''],
      turn = WHITE, game_state = UNFINISHED\<rparr>"

definition after_Ne7 :: chess_var where
  \<comment> \<open>1. Nc3 e6 2. Nd5 a6 3. Ne7, Black to move\<close>
  "after_Ne7 =
     \<lparr>board = [''rnbqkbnr'', '' pppNppp'', ''p   p   '', ''        '',
               ''        '', ''        '', ''PPPPPPPP'', ''R BQKBNR''],
      turn = BLACK, game_state = UNFINISHED\<rparr>"

definition after_d3_a6 :: chess_var where
  \<comment> \<open>1. d3 a6, White to move\<close>
  "after_d3_a6 =
     \<lparr>board = [''rnbqkbnr'', '' ppppppp'', ''p       '', ''        '',
               ''        '', ''   P    '', ''PPP PPPP'', ''RNBQKBNR''],
      turn = WHITE, game_state = UNFINISHED\<rparr>"

section \<open>Properties\<close>

subsection \<open>Board access on the board\<close>

lemma wf_board_row: "wf_board b \<Longrightarrow> i < 8 \<Longrightarrow> length (b ! i) = 8"
  by (simp add: wf_board_def list_all_length)

lemma on_board_row: "wf_board b \<Longrightarrow> on_board r c \<Longrightarrow> length (b ! nat r) = 8"
  by (rule wf_board_row) (auto simp: on_board_def)

lemma board_get_on_board:
  "wf_board b \<Longrightarrow> on_board r c \<Longrightarrow> board_get b r c = Inr (cell b r c)"
  by (frule (1) on_board_row)
     (simp add: board_get_def py_index_def cell_def on_board_def wf_board_def)

lemma board_set_on_board:
  "wf_board b \<Longrightarrow> on_board r c \<Longrightarrow> board_set b r c v = Inr (put b r c v)"
  by (frule (1) on_board_row)
     (simp add: board_set_def py_index_def py_store_def put_def on_board_def wf_board_def)

lemma wf_board_put: "wf_board b \<Longrightarrow> wf_board (put b r c v)"
proof -
  assume wf: "wf_board b"
  have "length (b[nat r := (b ! nat r)[nat c := v]] ! n) = 8" if "n < 8" for n
  proof (cases "n = nat r")
    case True
    with wf that show ?thesis by (simp add: wf_board_def list_all_length)
  next
    case False
    with wf that show ?thesis by (simp add: wf_board_def list_all_length)
  qed
  with wf show ?thesis by (simp add: wf_board_def put_def list_all_length)
qed

lemma cell_put:
  "wf_board b \<Longrightarrow> on_board r c \<Longrightarrow> on_board r' c' \<Longrightarrow>
   cell (put b r c v) r' c' = (if r' = r \<and> c' = c then v else cell b r' c')"
  by (frule (1) on_board_row)
     (auto simp: cell_def put_def on_board_def wf_board_def nth_list_update)

subsection \<open>The explosion\<close>

lemma abs_le_1_cases: "\<bar>x::int\<bar> \<le> 1 \<longleftrightarrow> x = -1 \<or> x = 0 \<or> x = 1"
  by arith

lemma neighbour_directions: "neighbour r c row col = ((r - row, c - col) \<in> set directions)"
  unfolding neighbour_def directions_def abs_le_1_cases by auto

lemma clear_neighbours_hit:
  assumes "wf_board b" "on_board (row + dr) (col + dc)"
    "\<not> py_in (cell b (row + dr) (col + dc)) ''Pp ''"
  shows "clear_neighbours ((dr, dc) # ds) b row col
         = clear_neighbours ds (put b (row + dr) (col + dc) (CHR '' '')) row col"
proof -
  have g: "0 \<le> row + dr \<and> row + dr < 8 \<and> 0 \<le> col + dc \<and> col + dc < 8"
    using assms(2) by (simp add: on_board_def)
  have r: "board_get b (row + dr) (col + dc) = Inr (cell b (row + dr) (col + dc))"
    using assms(1,2) by (rule board_get_on_board)
  have w: "board_set b (row + dr) (col + dc) (CHR '' '') = Inr (put b (row + dr) (col + dc) (CHR '' ''))"
    using assms(1,2) by (rule board_set_on_board)
  show ?thesis using assms(3) by (simp add: Let_def g r w)
qed

lemma clear_neighbours_miss:
  assumes "wf_board b"
    "\<not> (on_board (row + dr) (col + dc) \<and> \<not> py_in (cell b (row + dr) (col + dc)) ''Pp '')"
  shows "clear_neighbours ((dr, dc) # ds) b row col = clear_neighbours ds b row col"
proof (cases "on_board (row + dr) (col + dc)")
  case True
  then have g: "0 \<le> row + dr \<and> row + dr < 8 \<and> 0 \<le> col + dc \<and> col + dc < 8"
    by (simp add: on_board_def)
  have r: "board_get b (row + dr) (col + dc) = Inr (cell b (row + dr) (col + dc))"
    using assms(1) True by (rule board_get_on_board)
  from True assms(2) have "py_in (cell b (row + dr) (col + dc)) ''Pp ''" by blast
  then show ?thesis by (simp add: Let_def g r)
next
  case False
  then have g: "\<not> (0 \<le> row + dr \<and> row + dr < 8 \<and> 0 \<le> col + dc \<and> col + dc < 8)"
    by (simp add: on_board_def)
  show ?thesis by (simp only: clear_neighbours.simps Let_def g if_False)
qed

lemma clear_neighbours_cells:
  "wf_board b \<Longrightarrow>
   \<exists>b'. clear_neighbours ds b row col = Inr b' \<and> wf_board b'
      \<and> (\<forall>r c. on_board r c \<longrightarrow> cell b' r c =
            (if (r - row, c - col) \<in> set ds \<and> \<not> py_in (cell b r c) ''Pp ''
             then CHR '' '' else cell b r c))"
proof (induction ds arbitrary: b)
  case Nil
  then show ?case by simp
next
  case (Cons d ds)
  obtain dr dc where d: "d = (dr, dc)" by (cases d)
  show ?case
  proof (cases "on_board (row + dr) (col + dc) \<and> \<not> py_in (cell b (row + dr) (col + dc)) ''Pp ''")
    case True
    then have on: "on_board (row + dr) (col + dc)"
      and np: "\<not> py_in (cell b (row + dr) (col + dc)) ''Pp ''" by simp_all
    let ?b1 = "put b (row + dr) (col + dc) (CHR '' '')"
    have wf1: "wf_board ?b1" using Cons.prems by (rule wf_board_put)
    from Cons.IH [OF wf1] obtain b' where
      b': "clear_neighbours ds ?b1 row col = Inr b' \<and> wf_board b' \<and>
      (\<forall>r c. on_board r c \<longrightarrow> cell b' r c =
            (if (r - row, c - col) \<in> set ds \<and> \<not> py_in (cell ?b1 r c) ''Pp ''
             then CHR '' '' else cell ?b1 r c))" ..
    have run: "clear_neighbours (d # ds) b row col = Inr b'"
      unfolding d clear_neighbours_hit [OF Cons.prems on np] using b' by (rule conjunct1)
    have cells: "cell b' r c =
            (if (r - row, c - col) \<in> set (d # ds) \<and> \<not> py_in (cell b r c) ''Pp ''
             then CHR '' '' else cell b r c)" if rc: "on_board r c" for r c
    proof -
      have c1: "cell ?b1 r c = (if r = row + dr \<and> c = col + dc then CHR '' '' else cell b r c)"
        using Cons.prems on rc by (rule cell_put)
      have c2: "cell b' r c = (if (r - row, c - col) \<in> set ds \<and> \<not> py_in (cell ?b1 r c) ''Pp ''
             then CHR '' '' else cell ?b1 r c)" using b' rc by simp
      show ?thesis
      proof (cases "r = row + dr \<and> c = col + dc")
        case here: True
        then have "(r - row, c - col) = d" by (simp add: d)
        then show ?thesis using here np unfolding c2 c1 by simp
      next
        case False
        then have "(r - row, c - col) \<noteq> d" by (auto simp: d)
        then show ?thesis using False unfolding c2 c1 by auto
      qed
    qed
    show ?thesis
    proof (intro exI conjI allI impI)
      show "clear_neighbours (d # ds) b row col = Inr b'" by (rule run)
      show "wf_board b'" using b' by simp
    qed (rule cells)
  next
    case False
    from Cons.IH [OF Cons.prems] obtain b' where
      b': "clear_neighbours ds b row col = Inr b' \<and> wf_board b' \<and>
      (\<forall>r c. on_board r c \<longrightarrow> cell b' r c =
            (if (r - row, c - col) \<in> set ds \<and> \<not> py_in (cell b r c) ''Pp ''
             then CHR '' '' else cell b r c))" ..
    have run: "clear_neighbours (d # ds) b row col = Inr b'"
      unfolding d clear_neighbours_miss [OF Cons.prems False] using b' by (rule conjunct1)
    have cells: "cell b' r c =
            (if (r - row, c - col) \<in> set (d # ds) \<and> \<not> py_in (cell b r c) ''Pp ''
             then CHR '' '' else cell b r c)" if rc: "on_board r c" for r c
    proof -
      have c2: "cell b' r c = (if (r - row, c - col) \<in> set ds \<and> \<not> py_in (cell b r c) ''Pp ''
             then CHR '' '' else cell b r c)" using b' rc by simp
      show ?thesis
      proof (cases "r = row + dr \<and> c = col + dc")
        case True
        then have "(r - row, c - col) = d" by (simp add: d)
        moreover from True rc False have "py_in (cell b r c) ''Pp ''" by simp
        ultimately show ?thesis unfolding c2 by auto
      next
        case False
        then have "(r - row, c - col) \<noteq> d" by (auto simp: d)
        then show ?thesis unfolding c2 by simp
      qed
    qed
    show ?thesis
    proof (intro exI conjI allI impI)
      show "clear_neighbours (d # ds) b row col = Inr b'" by (rule run)
      show "wf_board b'" using b' by simp
    qed (rule cells)
  qed
qed

lemma king_in_range_total:
  "wf_board b \<Longrightarrow> \<exists>g'. king_in_range ds b row col g = Inr g'"
proof (induction ds arbitrary: g)
  case Nil
  then show ?case by simp
next
  case (Cons d ds)
  obtain dr dc where d: "d = (dr, dc)" by (cases d)
  show ?case
  proof (cases "on_board (row + dr) (col + dc)")
    case True
    then have g: "0 \<le> row + dr \<and> row + dr < 8 \<and> 0 \<le> col + dc \<and> col + dc < 8"
      by (simp add: on_board_def)
    have r: "board_get b (row + dr) (col + dc) = Inr (cell b (row + dr) (col + dc))"
      using Cons.prems True by (rule board_get_on_board)
    show ?thesis unfolding d using Cons.IH [OF Cons.prems] by (simp add: Let_def g r)
  next
    case False
    then have g: "\<not> (0 \<le> row + dr \<and> row + dr < 8 \<and> 0 \<le> col + dc \<and> col + dc < 8)"
      by (simp add: on_board_def)
    show ?thesis unfolding d using Cons.IH [OF Cons.prems]
      by (simp only: king_in_range.simps Let_def g if_False)
  qed
qed

lemma handle_explosion_cells:
  assumes wf: "wf_board (board s)" and on: "on_board row col"
  shows "\<exists>s'. handle_explosion s row col = Inr s' \<and> wf_board (board s') \<and> turn s' = turn s
      \<and> (\<forall>r c. on_board r c \<longrightarrow> cell (board s') r c =
            (if r = row \<and> c = col then CHR '' ''
             else if neighbour r c row col \<and> \<not> py_in (cell (board s) r c) ''Pp ''
             then CHR '' '' else cell (board s) r c))"
proof -
  let ?b1 = "put (board s) row col (CHR '' '')"
  have w: "board_set (board s) row col (CHR '' '') = Inr ?b1"
    using wf on by (rule board_set_on_board)
  have wf1: "wf_board ?b1" using wf by (rule wf_board_put)
  from clear_neighbours_cells [OF wf1, of directions row col] obtain b2 where
    b2: "clear_neighbours directions ?b1 row col = Inr b2 \<and> wf_board b2 \<and>
      (\<forall>r c. on_board r c \<longrightarrow> cell b2 r c =
            (if (r - row, c - col) \<in> set directions \<and> \<not> py_in (cell ?b1 r c) ''Pp ''
             then CHR '' '' else cell ?b1 r c))" ..
  then have wf2: "wf_board b2" by simp
  from king_in_range_total [OF wf2] obtain g where
    g: "king_in_range (directions @ [(0, 0)]) b2 row col (game_state s) = Inr g" ..
  have run: "handle_explosion s row col = Inr (s\<lparr>board := b2, game_state := g\<rparr>)"
    using b2 by (simp add: handle_explosion_def w g)
  have cells: "cell b2 r c =
            (if r = row \<and> c = col then CHR '' ''
             else if neighbour r c row col \<and> \<not> py_in (cell (board s) r c) ''Pp ''
             then CHR '' '' else cell (board s) r c)" if rc: "on_board r c" for r c
  proof -
    have c1: "cell ?b1 r c = (if r = row \<and> c = col then CHR '' '' else cell (board s) r c)"
      using wf on rc by (rule cell_put)
    have c2: "cell b2 r c = (if neighbour r c row col \<and> \<not> py_in (cell ?b1 r c) ''Pp ''
             then CHR '' '' else cell ?b1 r c)"
      using b2 rc by (simp add: neighbour_directions)
    show ?thesis unfolding c2 c1 by (auto simp: neighbour_def)
  qed
  show ?thesis
  proof (intro exI conjI allI impI)
    show "handle_explosion s row col = Inr (s\<lparr>board := b2, game_state := g\<rparr>)" by (rule run)
    show "wf_board (board (s\<lparr>board := b2, game_state := g\<rparr>))" using wf2 by simp
    show "turn (s\<lparr>board := b2, game_state := g\<rparr>) = turn s" by simp
    show "cell (board (s\<lparr>board := b2, game_state := g\<rparr>)) r c =
            (if r = row \<and> c = col then CHR '' ''
             else if neighbour r c row col \<and> \<not> py_in (cell (board s) r c) ''Pp ''
             then CHR '' '' else cell (board s) r c)" if "on_board r c" for r c
      using cells [OF that] by simp
  qed
qed

lemma handle_explosion_turn: "handle_explosion s row col = Inr s' \<Longrightarrow> turn s' = turn s"
  by (auto simp: handle_explosion_def split: sum.splits)

subsection \<open>The structure of a successful call\<close>

lemma is_valid_move_True:
  assumes "is_valid_move s start endp = Inr True"
  obtains sr sc er ec where "convert_to_indices start = Inr (sr, sc)"
    "convert_to_indices endp = Inr (er, ec)" "on_board sr sc" "on_board er ec"
    "start \<noteq> endp"
  using assms
  by (auto simp: is_valid_move_def on_board_def split: sum.splits prod.splits if_splits)

lemma make_move_True:
  assumes mm: "make_move s start endp = Inr (True, s')" and wf: "wf_board (board s)"
  obtains sr sc er ec s1 where
    "game_state s = UNFINISHED" "is_valid_move s start endp = Inr True"
    "convert_to_indices start = Inr (sr, sc)" "convert_to_indices endp = Inr (er, ec)"
    "on_board sr sc" "on_board er ec"
    "(if cell (board s) er ec \<noteq> CHR '' ''
      then handle_explosion (s\<lparr>board := relocate (board s) sr sc er ec\<rparr>) er ec
      else Inr (s\<lparr>board := relocate (board s) sr sc er ec\<rparr>)) = Inr s1"
    "s' = finish_move s1"
proof -
  from mm have un: "game_state s = UNFINISHED"
    by (auto simp: make_move_def split: if_splits)
  from mm un have v: "is_valid_move s start endp = Inr True"
    by (auto simp: make_move_def split: sum.splits bool.splits)
  from v obtain sr sc er ec where
    cs: "convert_to_indices start = Inr (sr, sc)" and ce: "convert_to_indices endp = Inr (er, ec)"
    and os: "on_board sr sc" and oe: "on_board er ec"
    by (rule is_valid_move_True)
  have g1: "board_get (board s) sr sc = Inr (cell (board s) sr sc)"
    using wf os by (rule board_get_on_board)
  have g2: "board_get (board s) er ec = Inr (cell (board s) er ec)"
    using wf oe by (rule board_get_on_board)
  have w1: "board_set (board s) er ec (cell (board s) sr sc)
              = Inr (put (board s) er ec (cell (board s) sr sc))"
    using wf oe by (rule board_set_on_board)
  have w2: "board_set (put (board s) er ec (cell (board s) sr sc)) sr sc (CHR '' '')
              = Inr (relocate (board s) sr sc er ec)"
    unfolding relocate_def using wf_board_put [OF wf] os by (rule board_set_on_board)
  from mm have "\<exists>s1. (if cell (board s) er ec \<noteq> CHR '' ''
      then handle_explosion (s\<lparr>board := relocate (board s) sr sc er ec\<rparr>) er ec
      else Inr (s\<lparr>board := relocate (board s) sr sc er ec\<rparr>)) = Inr s1
      \<and> s' = finish_move s1"
  proof (cases "handle_explosion (s\<lparr>board := relocate (board s) sr sc er ec\<rparr>) er ec")
    case (Inl e)
    with mm show ?thesis
      unfolding make_move_def finish_move_def
      by (cases "cell (board s) er ec = CHR '' ''") (auto simp add: un v cs ce g1 g2 w1 w2 Let_def)
  next
    case (Inr s1)
    with mm show ?thesis
      unfolding make_move_def finish_move_def
      by (cases "cell (board s) er ec = CHR '' ''") (auto simp add: un v cs ce g1 g2 w1 w2 Let_def)
  qed
  then obtain s1 where
    s1: "(if cell (board s) er ec \<noteq> CHR '' ''
      then handle_explosion (s\<lparr>board := relocate (board s) sr sc er ec\<rparr>) er ec
      else Inr (s\<lparr>board := relocate (board s) sr sc er ec\<rparr>)) = Inr s1"
    and s': "s' = finish_move s1" by blast
  from un v cs ce os oe s1 s' show thesis by (rule that)
qed

lemma board_finish_move: "board (finish_move s) = board s"
  by (simp add: finish_move_def Let_def)

lemma wf_board_relocate: "wf_board b \<Longrightarrow> wf_board (relocate b sr sc er ec)"
  unfolding relocate_def by (intro wf_board_put)

lemma cell_relocate:
  assumes wf: "wf_board b" and os: "on_board sr sc" and oe: "on_board er ec"
    and rc: "on_board r c"
  shows "cell (relocate b sr sc er ec) r c =
           (if r = sr \<and> c = sc then CHR '' ''
            else if r = er \<and> c = ec then cell b sr sc else cell b r c)"
  unfolding relocate_def
  using wf os oe rc by (simp add: cell_put wf_board_put)

lemma make_move_wf_board:
  assumes mm: "make_move s start endp = Inr (ok, s')" and wf: "wf_board (board s)"
  shows "wf_board (board s')"
proof (cases ok)
  case False
  with mm have "make_move s start endp = Inr (False, s')" by simp
  then have "s' = s"
    by (auto simp: make_move_def Let_def split: sum.splits if_splits bool.splits prod.splits)
  with wf show ?thesis by simp
next
  case True
  with mm have "make_move s start endp = Inr (True, s')" by simp
  from this wf obtain sr sc er ec s1 where
    oe: "on_board er ec" and
    s1: "(if cell (board s) er ec \<noteq> CHR '' ''
      then handle_explosion (s\<lparr>board := relocate (board s) sr sc er ec\<rparr>) er ec
      else Inr (s\<lparr>board := relocate (board s) sr sc er ec\<rparr>)) = Inr s1"
    and s': "s' = finish_move s1"
    by (rule make_move_True)
  let ?m = "s\<lparr>board := relocate (board s) sr sc er ec\<rparr>"
  have wfm: "wf_board (board ?m)" using wf by (simp add: wf_board_relocate)
  have "wf_board (board s1)"
  proof (cases "cell (board s) er ec \<noteq> CHR '' ''")
    case True
    with s1 have "handle_explosion ?m er ec = Inr s1" by simp
    with handle_explosion_cells [OF wfm oe] show ?thesis by auto
  next
    case False
    with s1 wfm show ?thesis by auto
  qed
  then show ?thesis by (simp add: s' board_finish_move)
qed

lemma wf_board_init: "wf_board (board init)"
  by (simp add: init_def initialize_board_def wf_board_def)

lemma reachable_wf_board: "reachable s \<Longrightarrow> wf_board (board s)"
  by (induction rule: reachable.induct) (auto intro: wf_board_init make_move_wf_board)

subsection \<open>Counting pieces\<close>

lemma count_list_update:
  "j < length xs \<Longrightarrow>
   length (filter P (xs[j := v])) + (if P (xs ! j) then 1 else 0)
     = length (filter P xs) + (if P v then 1 else 0)"
proof (induction xs arbitrary: j)
  case Nil
  then show ?case by simp
next
  case (Cons x xs)
  then show ?case by (cases j) auto
qed

lemma sum_list_map_update:
  "i < length xs \<Longrightarrow>
   sum_list (map f (xs[i := y])) + f (xs ! i) = sum_list (map f xs) + (f y :: nat)"
proof (induction xs arbitrary: i)
  case Nil
  then show ?case by simp
next
  case (Cons x xs)
  then show ?case by (cases i) auto
qed

lemma occupied_put:
  assumes wf: "wf_board b" and on: "on_board r c"
  shows "occupied (put b r c v) + (if cell b r c \<noteq> CHR '' '' then 1 else 0)
         = occupied b + (if v \<noteq> CHR '' '' then 1 else 0)"
proof -
  let ?f = "\<lambda>row. length (filter (\<lambda>x. x \<noteq> CHR '' '') row)"
  have i: "nat r < length b" using wf on by (auto simp: wf_board_def on_board_def)
  have j: "nat c < length (b ! nat r)"
    using on_board_row [OF wf on] on by (auto simp: on_board_def)
  have "sum_list (map ?f (b[nat r := (b ! nat r)[nat c := v]])) + ?f (b ! nat r)
        = sum_list (map ?f b) + ?f ((b ! nat r)[nat c := v])"
    using i by (rule sum_list_map_update)
  moreover have "?f ((b ! nat r)[nat c := v]) + (if b ! nat r ! nat c \<noteq> CHR '' '' then 1 else 0)
        = ?f (b ! nat r) + (if v \<noteq> CHR '' '' then 1 else 0)"
    using j by (rule count_list_update)
  ultimately show ?thesis unfolding occupied_def put_def cell_def by linarith
qed

lemma occupied_put_blank:
  "wf_board b \<Longrightarrow> on_board r c \<Longrightarrow> occupied (put b r c (CHR '' '')) \<le> occupied b"
  using occupied_put [of b r c "CHR '' ''"] by (simp split: if_splits)

lemma occupied_relocate:
  assumes wf: "wf_board b" and os: "on_board sr sc" and oe: "on_board er ec"
  shows "occupied (relocate b sr sc er ec) + (if cell b er ec \<noteq> CHR '' '' then 1 else 0)
         = occupied b"
proof -
  let ?b1 = "put b er ec (cell b sr sc)"
  have wf1: "wf_board ?b1" using wf by (rule wf_board_put)
  have 1: "occupied ?b1 + (if cell b er ec \<noteq> CHR '' '' then 1 else 0)
         = occupied b + (if cell b sr sc \<noteq> CHR '' '' then 1 else 0)"
    using wf oe by (rule occupied_put)
  have c: "cell ?b1 sr sc = cell b sr sc"
    using cell_put [OF wf oe os, of "cell b sr sc"] by simp
  have 2: "occupied (put ?b1 sr sc (CHR '' '')) + (if cell ?b1 sr sc \<noteq> CHR '' '' then 1 else 0)
         = occupied ?b1 + (if CHR '' '' \<noteq> CHR '' '' then 1 else 0)"
    using wf1 os by (rule occupied_put)
  from 1 2 show ?thesis unfolding relocate_def c by (simp split: if_splits)
qed

lemma clear_neighbours_occupied:
  "wf_board b \<Longrightarrow> clear_neighbours ds b row col = Inr b' \<Longrightarrow> occupied b' \<le> occupied b"
proof (induction ds arbitrary: b)
  case Nil
  then show ?case by simp
next
  case (Cons d ds)
  obtain dr dc where d: "d = (dr, dc)" by (cases d)
  show ?case
  proof (cases "on_board (row + dr) (col + dc) \<and> \<not> py_in (cell b (row + dr) (col + dc)) ''Pp ''")
    case True
    then have on: "on_board (row + dr) (col + dc)"
      and np: "\<not> py_in (cell b (row + dr) (col + dc)) ''Pp ''" by simp_all
    let ?b1 = "put b (row + dr) (col + dc) (CHR '' '')"
    have wf1: "wf_board ?b1" using Cons.prems(1) by (rule wf_board_put)
    have "clear_neighbours ds ?b1 row col = Inr b'"
      using Cons.prems(2) unfolding d clear_neighbours_hit [OF Cons.prems(1) on np] .
    with wf1 have "occupied b' \<le> occupied ?b1" by (rule Cons.IH)
    also have "\<dots> \<le> occupied b" using Cons.prems(1) on by (rule occupied_put_blank)
    finally show ?thesis .
  next
    case False
    have "clear_neighbours ds b row col = Inr b'"
      using Cons.prems(2) unfolding d clear_neighbours_miss [OF Cons.prems(1) False] .
    with Cons.prems(1) show ?thesis by (rule Cons.IH)
  qed
qed

lemma handle_explosion_occupied:
  assumes wf: "wf_board (board s)" and on: "on_board row col"
    and run: "handle_explosion s row col = Inr s'"
  shows "occupied (board s') \<le> occupied (board s)"
proof -
  let ?b1 = "put (board s) row col (CHR '' '')"
  have w: "board_set (board s) row col (CHR '' '') = Inr ?b1"
    using wf on by (rule board_set_on_board)
  have wf1: "wf_board ?b1" using wf by (rule wf_board_put)
  from run obtain b2 where b2: "clear_neighbours directions ?b1 row col = Inr b2"
    and s': "board s' = b2"
    unfolding handle_explosion_def w by (auto split: sum.splits)
  from wf1 b2 have "occupied b2 \<le> occupied ?b1" by (rule clear_neighbours_occupied)
  also have "\<dots> \<le> occupied (board s)" using wf on by (rule occupied_put_blank)
  finally show ?thesis by (simp add: s')
qed

lemma make_move_occupied:
  assumes mm: "make_move s start endp = Inr (ok, s')" and wf: "wf_board (board s)"
  shows "occupied (board s') \<le> occupied (board s)"
proof (cases ok)
  case False
  with mm have "make_move s start endp = Inr (False, s')" by simp
  then have "s' = s"
    by (auto simp: make_move_def Let_def split: sum.splits if_splits bool.splits prod.splits)
  then show ?thesis by simp
next
  case True
  with mm have "make_move s start endp = Inr (True, s')" by simp
  from this wf obtain sr sc er ec s1 where
    os: "on_board sr sc" and oe: "on_board er ec" and
    s1: "(if cell (board s) er ec \<noteq> CHR '' ''
      then handle_explosion (s\<lparr>board := relocate (board s) sr sc er ec\<rparr>) er ec
      else Inr (s\<lparr>board := relocate (board s) sr sc er ec\<rparr>)) = Inr s1"
    and s': "s' = finish_move s1"
    by (rule make_move_True)
  let ?m = "s\<lparr>board := relocate (board s) sr sc er ec\<rparr>"
  have wfm: "wf_board (board ?m)" using wf by (simp add: wf_board_relocate)
  have m: "occupied (board ?m) \<le> occupied (board s)"
    using occupied_relocate [OF wf os oe] by simp
  have "occupied (board s1) \<le> occupied (board ?m)"
  proof (cases "cell (board s) er ec \<noteq> CHR '' ''")
    case True
    with s1 have "handle_explosion ?m er ec = Inr s1" by simp
    with wfm oe show ?thesis by (rule handle_explosion_occupied)
  next
    case False
    with s1 show ?thesis by auto
  qed
  with m show ?thesis by (simp add: s' board_finish_move)
qed

subsection \<open>The three walks of a sliding piece\<close>

lemma step_neq_0: "int (Suc m) * step d \<noteq> 0"
  by (simp add: step_def)

lemma diagonal_walk_clear:
  "wf_board b \<Longrightarrow>
   (\<And>j. j < m \<Longrightarrow> on_board (cr + int j * step down) (cc + int j * step right)) \<Longrightarrow>
   diagonal_walk b cr cc (cr + int m * step down) (cc + int m * step right) down right
     = Inr (\<forall>j<m. cell b (cr + int j * step down) (cc + int j * step right) = CHR '' '')"
proof (induction m arbitrary: cr cc)
  case 0
  show ?case by (subst diagonal_walk.simps) simp
next
  case (Suc m)
  have on0: "on_board cr cc" using Suc.prems(2) [of 0] by simp
  have g: "board_get b cr cc = Inr (cell b cr cc)"
    using Suc.prems(1) on0 by (rule board_get_on_board)
  have ne: "cr \<noteq> cr + int (Suc m) * step down" "cc \<noteq> cc + int (Suc m) * step right"
    using step_neq_0 [of m down] step_neq_0 [of m right] by simp_all
  have shift: "cr + int (Suc m) * step down = (cr + step down) + int m * step down"
    "cc + int (Suc m) * step right = (cc + step right) + int m * step right"
    by (simp_all add: algebra_simps)
  have on': "on_board (cr + step down + int j * step down) (cc + step right + int j * step right)"
    if "j < m" for j
    using Suc.prems(2) [of "Suc j"] that by (simp add: algebra_simps)
  have IH: "diagonal_walk b (cr + step down) (cc + step right)
       (cr + step down + int m * step down) (cc + step right + int m * step right) down right
     = Inr (\<forall>j<m. cell b (cr + step down + int j * step down)
                          (cc + step right + int j * step right) = CHR '' '')"
    using Suc.prems(1) on' by (rule Suc.IH)
  have split: "(\<forall>j<Suc m. cell b (cr + int j * step down) (cc + int j * step right) = CHR '' '')
      = (cell b cr cc = CHR '' '' \<and>
         (\<forall>j<m. cell b (cr + step down + int j * step down)
                          (cc + step right + int j * step right) = CHR '' ''))"
    unfolding All_less_Suc2 by (simp add: algebra_simps)
  have "diagonal_walk b cr cc (cr + int (Suc m) * step down) (cc + int (Suc m) * step right) down right
     = (if cell b cr cc \<noteq> CHR '' '' then Inr False
        else diagonal_walk b (cr + step down) (cc + step right)
                    (cr + int (Suc m) * step down) (cc + int (Suc m) * step right) down right)"
    using ne by (subst diagonal_walk.simps) (simp add: g del: of_nat_Suc)
  also have "\<dots> = Inr (cell b cr cc = CHR '' '' \<and>
         (\<forall>j<m. cell b (cr + step down + int j * step down)
                          (cc + step right + int j * step right) = CHR '' ''))"
    unfolding shift IH by simp
  finally show ?case unfolding split .
qed

lemma horizontal_walk_clear:
  "wf_board b \<Longrightarrow>
   (\<And>j. j < m \<Longrightarrow> on_board sr (cc + int j * step right)) \<Longrightarrow>
   horizontal_walk b sr cc (cc + int m * step right) right
     = Inr (\<forall>j<m. cell b sr (cc + int j * step right) = CHR '' '')"
proof (induction m arbitrary: cc)
  case 0
  show ?case by (subst horizontal_walk.simps) simp
next
  case (Suc m)
  have on0: "on_board sr cc" using Suc.prems(2) [of 0] by simp
  have g: "board_get b sr cc = Inr (cell b sr cc)"
    using Suc.prems(1) on0 by (rule board_get_on_board)
  have ne: "cc \<noteq> cc + int (Suc m) * step right"
    using step_neq_0 [of m right] by simp
  have shift: "cc + int (Suc m) * step right = (cc + step right) + int m * step right"
    by (simp add: algebra_simps)
  have on': "on_board sr (cc + step right + int j * step right)" if "j < m" for j
    using Suc.prems(2) [of "Suc j"] that by (simp add: algebra_simps)
  have IH: "horizontal_walk b sr (cc + step right) (cc + step right + int m * step right) right
     = Inr (\<forall>j<m. cell b sr (cc + step right + int j * step right) = CHR '' '')"
    using Suc.prems(1) on' by (rule Suc.IH)
  have split: "(\<forall>j<Suc m. cell b sr (cc + int j * step right) = CHR '' '')
      = (cell b sr cc = CHR '' '' \<and>
         (\<forall>j<m. cell b sr (cc + step right + int j * step right) = CHR '' ''))"
    unfolding All_less_Suc2 by (simp add: algebra_simps)
  have "horizontal_walk b sr cc (cc + int (Suc m) * step right) right
     = (if cell b sr cc \<noteq> CHR '' '' then Inr False
        else horizontal_walk b sr (cc + step right) (cc + int (Suc m) * step right) right)"
    using ne by (subst horizontal_walk.simps) (simp add: g del: of_nat_Suc)
  also have "\<dots> = Inr (cell b sr cc = CHR '' '' \<and>
         (\<forall>j<m. cell b sr (cc + step right + int j * step right) = CHR '' ''))"
    unfolding shift IH by simp
  finally show ?case unfolding split .
qed

lemma vertical_walk_clear:
  "wf_board b \<Longrightarrow>
   (\<And>j. j < m \<Longrightarrow> on_board (cr + int j * step down) sc) \<Longrightarrow>
   vertical_walk b cr sc (cr + int m * step down) down
     = Inr (\<forall>j<m. cell b (cr + int j * step down) sc = CHR '' '')"
proof (induction m arbitrary: cr)
  case 0
  show ?case by (subst vertical_walk.simps) simp
next
  case (Suc m)
  have on0: "on_board cr sc" using Suc.prems(2) [of 0] by simp
  have g: "board_get b cr sc = Inr (cell b cr sc)"
    using Suc.prems(1) on0 by (rule board_get_on_board)
  have ne: "cr \<noteq> cr + int (Suc m) * step down"
    using step_neq_0 [of m down] by simp
  have shift: "cr + int (Suc m) * step down = (cr + step down) + int m * step down"
    by (simp add: algebra_simps)
  have on': "on_board (cr + step down + int j * step down) sc" if "j < m" for j
    using Suc.prems(2) [of "Suc j"] that by (simp add: algebra_simps)
  have IH: "vertical_walk b (cr + step down) sc (cr + step down + int m * step down) down
     = Inr (\<forall>j<m. cell b (cr + step down + int j * step down) sc = CHR '' '')"
    using Suc.prems(1) on' by (rule Suc.IH)
  have split: "(\<forall>j<Suc m. cell b (cr + int j * step down) sc = CHR '' '')
      = (cell b cr sc = CHR '' '' \<and>
         (\<forall>j<m. cell b (cr + step down + int j * step down) sc = CHR '' ''))"
    unfolding All_less_Suc2 by (simp add: algebra_simps)
  have "vertical_walk b cr sc (cr + int (Suc m) * step down) down
     = (if cell b cr sc \<noteq> CHR '' '' then Inr False
        else vertical_walk b (cr + step down) sc (cr + int (Suc m) * step down) down)"
    using ne by (subst vertical_walk.simps) (simp add: g del: of_nat_Suc)
  also have "\<dots> = Inr (cell b cr sc = CHR '' '' \<and>
         (\<forall>j<m. cell b (cr + step down + int j * step down) sc = CHR '' ''))"
    unfolding shift IH by simp
  finally show ?case unfolding split .
qed

lemma all_squares_between:
  "(\<forall>(r, c) \<in> set (squares_between sr sc er ec). P r c)
   = (\<forall>j<nat (max \<bar>er - sr\<bar> \<bar>ec - sc\<bar>) - 1.
        P (sr + int (Suc j) * sgn (er - sr)) (sc + int (Suc j) * sgn (ec - sc)))"
proof -
  let ?n = "nat (max \<bar>er - sr\<bar> \<bar>ec - sc\<bar>)"
  let ?Q = "\<lambda>k. P (sr + int k * sgn (er - sr)) (sc + int k * sgn (ec - sc))"
  have "(\<forall>(r, c) \<in> set (squares_between sr sc er ec). P r c) = (\<forall>k\<in>{1..<?n}. ?Q k)"
    by (simp add: squares_between_def)
  also have "\<dots> = (\<forall>j<?n - 1. ?Q (Suc j))"
  proof
    assume a: "\<forall>k\<in>{1..<?n}. ?Q k"
    show "\<forall>j<?n - 1. ?Q (Suc j)"
    proof (intro allI impI)
      fix j assume "j < ?n - 1"
      then have "Suc j \<in> {1..<?n}" by auto
      with a show "?Q (Suc j)" by blast
    qed
  next
    assume a: "\<forall>j<?n - 1. ?Q (Suc j)"
    show "\<forall>k\<in>{1..<?n}. ?Q k"
    proof
      fix k assume k: "k \<in> {1..<?n}"
      then obtain j where j: "k = Suc j" by (cases k) auto
      with k have "j < ?n - 1" by auto
      with a j show "?Q k" by blast
    qed
  qed
  finally show ?thesis .
qed

lemma step_sgn: "e \<noteq> s \<Longrightarrow> step (e > s) = sgn (e - s)"
  by (simp add: step_def sgn_if)

lemma diagonal_walk_between:
  assumes wf: "wf_board b" and os: "on_board sr sc" and oe: "on_board er ec"
    and diag: "\<bar>er - sr\<bar> = \<bar>ec - sc\<bar>" and ne: "er \<noteq> sr"
  shows "diagonal_walk b (sr + step (er > sr)) (sc + step (ec > sc)) er ec (er > sr) (ec > sc)
         = Inr (\<forall>(r, c) \<in> set (squares_between sr sc er ec). cell b r c = CHR '' '')"
proof -
  define m where "m = nat (max \<bar>er - sr\<bar> \<bar>ec - sc\<bar>) - 1"
  from diag ne have nec: "ec \<noteq> sc" by auto
  have m: "int m = \<bar>er - sr\<bar> - 1" "int m = \<bar>ec - sc\<bar> - 1"
    using diag ne by (auto simp: m_def)
  have er: "sr + step (er > sr) + int m * step (er > sr) = er"
    unfolding m(1) by (simp add: step_def)
  have ec: "sc + step (ec > sc) + int m * step (ec > sc) = ec"
    unfolding m(2) by (simp add: step_def)
  have on: "on_board (sr + step (er > sr) + int j * step (er > sr))
                     (sc + step (ec > sc) + int j * step (ec > sc))" if "j < m" for j
  proof -
    from that have "int j < \<bar>er - sr\<bar> - 1" "int j < \<bar>ec - sc\<bar> - 1"
      using m by linarith+
    with os oe show ?thesis by (auto simp: on_board_def step_def)
  qed
  have "diagonal_walk b (sr + step (er > sr)) (sc + step (ec > sc))
          (sr + step (er > sr) + int m * step (er > sr))
          (sc + step (ec > sc) + int m * step (ec > sc)) (er > sr) (ec > sc)
        = Inr (\<forall>j<m. cell b (sr + step (er > sr) + int j * step (er > sr))
                            (sc + step (ec > sc) + int j * step (ec > sc)) = CHR '' '')"
    using wf on by (rule diagonal_walk_clear)
  also have "(\<forall>j<m. cell b (sr + step (er > sr) + int j * step (er > sr))
                            (sc + step (ec > sc) + int j * step (ec > sc)) = CHR '' '')
     = (\<forall>(r, c) \<in> set (squares_between sr sc er ec). cell b r c = CHR '' '')"
    unfolding all_squares_between m_def [symmetric] step_sgn [OF ne] step_sgn [OF nec]
    by (simp add: algebra_simps)
  finally show ?thesis unfolding er ec .
qed

lemma horizontal_walk_between:
  assumes wf: "wf_board b" and os: "on_board sr sc" and oe: "on_board sr ec"
    and ne: "ec \<noteq> sc"
  shows "horizontal_walk b sr (sc + step (ec > sc)) ec (ec > sc)
         = Inr (\<forall>(r, c) \<in> set (squares_between sr sc sr ec). cell b r c = CHR '' '')"
proof -
  define m where "m = nat (max \<bar>sr - sr\<bar> \<bar>ec - sc\<bar>) - 1"
  have m: "int m = \<bar>ec - sc\<bar> - 1"
    using ne by (auto simp: m_def)
  have ec: "sc + step (ec > sc) + int m * step (ec > sc) = ec"
    unfolding m by (simp add: step_def)
  have on: "on_board sr (sc + step (ec > sc) + int j * step (ec > sc))" if "j < m" for j
  proof -
    from that have "int j < \<bar>ec - sc\<bar> - 1"
      using m by linarith
    with os oe show ?thesis by (auto simp: on_board_def step_def)
  qed
  have "horizontal_walk b sr (sc + step (ec > sc))
          (sc + step (ec > sc) + int m * step (ec > sc)) (ec > sc)
        = Inr (\<forall>j<m. cell b sr (sc + step (ec > sc) + int j * step (ec > sc)) = CHR '' '')"
    using wf on by (rule horizontal_walk_clear)
  also have "(\<forall>j<m. cell b sr (sc + step (ec > sc) + int j * step (ec > sc)) = CHR '' '')
     = (\<forall>(r, c) \<in> set (squares_between sr sc sr ec). cell b r c = CHR '' '')"
    unfolding all_squares_between m_def [symmetric] step_sgn [OF ne]
    by (simp add: algebra_simps)
  finally show ?thesis unfolding ec .
qed

lemma vertical_walk_between:
  assumes wf: "wf_board b" and os: "on_board sr sc" and oe: "on_board er sc"
    and ne: "er \<noteq> sr"
  shows "vertical_walk b (sr + step (er > sr)) sc er (er > sr)
         = Inr (\<forall>(r, c) \<in> set (squares_between sr sc er sc). cell b r c = CHR '' '')"
proof -
  define m where "m = nat (max \<bar>er - sr\<bar> \<bar>sc - sc\<bar>) - 1"
  have m: "int m = \<bar>er - sr\<bar> - 1"
    using ne by (auto simp: m_def)
  have er: "sr + step (er > sr) + int m * step (er > sr) = er"
    unfolding m by (simp add: step_def)
  have on: "on_board (sr + step (er > sr) + int j * step (er > sr)) sc" if "j < m" for j
  proof -
    from that have "int j < \<bar>er - sr\<bar> - 1"
      using m by linarith
    with os oe show ?thesis by (auto simp: on_board_def step_def)
  qed
  have "vertical_walk b (sr + step (er > sr)) sc
          (sr + step (er > sr) + int m * step (er > sr)) (er > sr)
        = Inr (\<forall>j<m. cell b (sr + step (er > sr) + int j * step (er > sr)) sc = CHR '' '')"
    using wf on by (rule vertical_walk_clear)
  also have "(\<forall>j<m. cell b (sr + step (er > sr) + int j * step (er > sr)) sc = CHR '' '')
     = (\<forall>(r, c) \<in> set (squares_between sr sc er sc). cell b r c = CHR '' '')"
    unfolding all_squares_between m_def [symmetric] step_sgn [OF ne]
    by (simp add: algebra_simps)
  finally show ?thesis unfolding er .
qed

subsection \<open>Validation of a move between two squares of the board\<close>

lemma letters_islower:
  "islower (CHR ''p'')" "islower (CHR ''n'')" "islower (CHR ''b'')" "islower (CHR ''r'')"
  "islower (CHR ''q'')" "islower (CHR ''k'')"
  "\<not> islower (CHR ''P'')" "\<not> islower (CHR ''N'')" "\<not> islower (CHR ''B'')"
  "\<not> islower (CHR ''R'')" "\<not> islower (CHR ''Q'')" "\<not> islower (CHR ''K'')"
  "\<not> islower (CHR '' '')"
  by code_simp+

lemma letters_isupper:
  "isupper (CHR ''P'')" "isupper (CHR ''N'')" "isupper (CHR ''B'')" "isupper (CHR ''R'')"
  "isupper (CHR ''Q'')" "isupper (CHR ''K'')"
  "\<not> isupper (CHR ''p'')" "\<not> isupper (CHR ''n'')" "\<not> isupper (CHR ''b'')"
  "\<not> isupper (CHR ''r'')" "\<not> isupper (CHR ''q'')" "\<not> isupper (CHR ''k'')"
  "\<not> isupper (CHR '' '')"
  by code_simp+

lemma letters_upper:
  "upper (CHR ''p'') = CHR ''P''" "upper (CHR ''n'') = CHR ''N''"
  "upper (CHR ''b'') = CHR ''B''" "upper (CHR ''r'') = CHR ''R''"
  "upper (CHR ''q'') = CHR ''Q''" "upper (CHR ''k'') = CHR ''K''"
  "upper (CHR ''P'') = CHR ''P''" "upper (CHR ''N'') = CHR ''N''"
  "upper (CHR ''B'') = CHR ''B''" "upper (CHR ''R'') = CHR ''R''"
  "upper (CHR ''Q'') = CHR ''Q''" "upper (CHR ''K'') = CHR ''K''"
  "upper (CHR '' '') = CHR '' ''"
  by code_simp+

lemma py_int_inj: "py_int x = Inr n \<Longrightarrow> py_int y = Inr n \<Longrightarrow> x = y"
  by (auto simp: py_int_def split: if_splits)

lemma ord_inj: "ord x = ord y \<Longrightarrow> x = y"
  by (simp add: ord_def)

lemma convert_to_indices_inj:
  assumes "convert_to_indices p = Inr rc" "convert_to_indices q = Inr rc"
  shows "p = q"
proof -
  from assms(1) obtain c1 r1 n1 where p: "p = [c1, r1]" "py_int r1 = Inr n1"
    "rc = (8 - n1, ord c1 - ord (CHR ''a''))"
    by (auto simp: convert_to_indices_def split: list.splits sum.splits)
  from assms(2) obtain c2 r2 n2 where q: "q = [c2, r2]" "py_int r2 = Inr n2"
    "rc = (8 - n2, ord c2 - ord (CHR ''a''))"
    by (auto simp: convert_to_indices_def split: list.splits sum.splits)
  from p(3) q(3) have "n1 = n2" "ord c1 = ord c2" by simp_all
  with p q show ?thesis by (auto dest: py_int_inj ord_inj)
qed

lemma is_valid_move_on_board:
  assumes wf: "wf_board (board s)"
    and cs: "convert_to_indices start = Inr (sr, sc)"
    and ce: "convert_to_indices endp = Inr (er, ec)"
    and os: "on_board sr sc" and oe: "on_board er ec"
  shows "is_valid_move s start endp =
     (if (turn s = WHITE \<and> islower (cell (board s) sr sc))
         \<or> (turn s = BLACK \<and> isupper (cell (board s) sr sc)) then Inr False
      else if (sr, sc) = (er, ec) then Inr False
      else if upper (cell (board s) sr sc) = CHR ''K'' \<and> cell (board s) er ec \<noteq> CHR '' ''
      then Inr False
      else if upper (cell (board s) sr sc) = CHR ''P''
      then (case pawn_block (board s) (cell (board s) sr sc) (cell (board s) er ec) sr sc er ec of
              Inl e \<Rightarrow> Inl e
            | Inr (Some r) \<Rightarrow> Inr r
            | Inr None \<Rightarrow> after_pawn_block (board s) (cell (board s) sr sc) sr sc er ec)
      else after_pawn_block (board s) (cell (board s) sr sc) sr sc er ec)"
proof -
  have g1: "board_get (board s) sr sc = Inr (cell (board s) sr sc)"
    using wf os by (rule board_get_on_board)
  have g2: "board_get (board s) er ec = Inr (cell (board s) er ec)"
    using wf oe by (rule board_get_on_board)
  have eq: "(start = endp) = ((sr, sc) = (er, ec))"
    using cs ce by (auto dest: convert_to_indices_inj)
  have b: "0 \<le> sr \<and> sr < 8 \<and> 0 \<le> sc \<and> sc < 8 \<and> 0 \<le> er \<and> er < 8 \<and> 0 \<le> ec \<and> ec < 8"
    using os oe by (simp add: on_board_def)
  show ?thesis
    unfolding is_valid_move_def
    by (simp only: cs ce sum.case prod.case g1 g2 eq b simp_thms)
qed

lemma brq_on_board:
  assumes wf: "wf_board b" and os: "on_board sr sc" and oe: "on_board er ec"
    and ne: "(sr, sc) \<noteq> (er, ec)"
    and kind: "upper piece = CHR ''B'' \<or> upper piece = CHR ''R'' \<or> upper piece = CHR ''Q''"
  shows "is_valid_bishop_rook_queen_move b piece sr sc er ec
         = Inr (line_of_travel piece (er - sr) (ec - sc)
                \<and> (\<forall>(r, c) \<in> set (squares_between sr sc er ec). cell b r c = CHR '' ''))"
proof -
  consider (diag) "\<bar>er - sr\<bar> = \<bar>ec - sc\<bar>" "er \<noteq> sr" "ec \<noteq> sc"
    | (hor) "er = sr" "ec \<noteq> sc" | (ver) "ec = sc" "er \<noteq> sr"
    | (none) "\<bar>er - sr\<bar> \<noteq> \<bar>ec - sc\<bar>" "er \<noteq> sr" "ec \<noteq> sc"
    using ne by fastforce
  then show ?thesis
  proof cases
    case diag
    have w: "diagonal_walk b (sr + step (er > sr)) (sc + step (ec > sc)) er ec (er > sr) (ec > sc)
         = Inr (\<forall>(r, c) \<in> set (squares_between sr sc er ec). cell b r c = CHR '' '')"
      using wf os oe diag(1,2) by (rule diagonal_walk_between)
    from kind diag show ?thesis
      unfolding is_valid_bishop_rook_queen_move_def line_of_travel_def w
      by auto
  next
    case hor
    have oe': "on_board sr ec" using oe hor by simp
    have w: "horizontal_walk b sr (sc + step (ec > sc)) ec (ec > sc)
         = Inr (\<forall>(r, c) \<in> set (squares_between sr sc sr ec). cell b r c = CHR '' '')"
      using wf os oe' hor(2) by (rule horizontal_walk_between)
    from kind hor show ?thesis
      unfolding is_valid_bishop_rook_queen_move_def line_of_travel_def
      by (auto simp: w)
  next
    case ver
    have oe': "on_board er sc" using oe ver by simp
    have w: "vertical_walk b (sr + step (er > sr)) sc er (er > sr)
         = Inr (\<forall>(r, c) \<in> set (squares_between sr sc er sc). cell b r c = CHR '' '')"
      using wf os oe' ver(2) by (rule vertical_walk_between)
    from kind ver show ?thesis
      unfolding is_valid_bishop_rook_queen_move_def line_of_travel_def
      by (auto simp: w)
  next
    case none
    from kind none show ?thesis
      unfolding is_valid_bishop_rook_queen_move_def line_of_travel_def
      by auto
  qed
qed

lemma cell_is_on_board:
  "wf_board b \<Longrightarrow> on_board r c \<Longrightarrow> cell_is b r c v = Inr (cell b r c = v)"
  by (simp add: cell_is_def board_get_on_board)

lemma pawn_block_white:
  assumes wf: "wf_board b" and os: "on_board sr sc" and oe: "on_board er ec"
  shows "pawn_block b (CHR ''P'') target sr sc er ec =
     (if sr = 6 \<and> er = 4 \<and> sc = ec \<and> cell b 5 sc = CHR '' '' \<and> cell b 4 sc = CHR '' ''
      then Inr (Some True)
      else if er = sr - 1 \<and> sc = ec \<and> cell b er ec = CHR '' '' then Inr (Some True)
      else if er = sr - 1 \<and> \<bar>sc - ec\<bar> = 1 \<and> target \<noteq> CHR '' '' then Inr (Some True)
      else Inr None)"
proof -
  have o5: "on_board 5 sc" and o4: "on_board 4 sc" using os by (simp_all add: on_board_def)
  show ?thesis
    unfolding pawn_block_def and_then_def
      cell_is_on_board [OF wf o5] cell_is_on_board [OF wf o4] cell_is_on_board [OF wf oe]
    by (auto simp add: letters_isupper)
qed

lemma pawn_block_black:
  assumes wf: "wf_board b" and os: "on_board sr sc" and oe: "on_board er ec"
  shows "pawn_block b (CHR ''p'') target sr sc er ec =
     (if sr = 1 \<and> er = 3 \<and> sc = ec \<and> cell b 2 sc = CHR '' '' \<and> cell b 3 sc = CHR '' ''
      then Inr (Some True)
      else if er = sr + 1 \<and> sc = ec \<and> cell b er ec = CHR '' '' then Inr (Some True)
      else if er = sr + 1 \<and> \<bar>sc - ec\<bar> = 1 \<and> target \<noteq> CHR '' '' then Inr (Some True)
      else Inr (Some False))"
proof -
  have o2: "on_board 2 sc" and o3: "on_board 3 sc" using os by (simp_all add: on_board_def)
  show ?thesis
    unfolding pawn_block_def and_then_def
      cell_is_on_board [OF wf o2] cell_is_on_board [OF wf o3] cell_is_on_board [OF wf oe]
    by (auto simp add: letters_isupper)
qed

lemma after_pawn_block_pawn:
  "after_pawn_block b (CHR ''P'') sr sc er ec = Inr False"
  by (simp add: after_pawn_block_def letters_upper)

subsection \<open>The game state after an explosion\<close>

text \<open>After the two clearing steps no square of the blast zone holds a king.\<close>

lemma king_in_range_no_king:
  assumes wf: "wf_board b"
    and nk: "\<And>dr dc. (dr, dc) \<in> set ds \<Longrightarrow> on_board (row + dr) (col + dc) \<Longrightarrow>
      cell b (row + dr) (col + dc) \<noteq> CHR ''K'' \<and> cell b (row + dr) (col + dc) \<noteq> CHR ''k''"
  shows "king_in_range ds b row col g = Inr g"
  using nk
proof (induction ds)
  case Nil
  then show ?case by simp
next
  case (Cons d ds)
  obtain dr dc where d: "d = (dr, dc)" by (cases d)
  have IH: "king_in_range ds b row col g = Inr g"
    by (rule Cons.IH) (rule Cons.prems, simp_all)
  show ?case
  proof (cases "on_board (row + dr) (col + dc)")
    case True
    then have g: "0 \<le> row + dr \<and> row + dr < 8 \<and> 0 \<le> col + dc \<and> col + dc < 8"
      by (simp add: on_board_def)
    have r: "board_get b (row + dr) (col + dc) = Inr (cell b (row + dr) (col + dc))"
      using wf True by (rule board_get_on_board)
    have "cell b (row + dr) (col + dc) \<noteq> CHR ''K'' \<and> cell b (row + dr) (col + dc) \<noteq> CHR ''k''"
      using True by (intro Cons.prems) (simp add: d)
    then show ?thesis unfolding d using IH by (simp add: Let_def g r)
  next
    case False
    then have g: "\<not> (0 \<le> row + dr \<and> row + dr < 8 \<and> 0 \<le> col + dc \<and> col + dc < 8)"
      by (simp add: on_board_def)
    show ?thesis unfolding d using IH
      by (simp only: king_in_range.simps Let_def g if_False)
  qed
qed

lemma handle_explosion_game_state:
  assumes wf: "wf_board (board s)" and on: "on_board row col"
    and run: "handle_explosion s row col = Inr s'"
  shows "game_state s' = game_state s"
proof -
  let ?b1 = "put (board s) row col (CHR '' '')"
  have w: "board_set (board s) row col (CHR '' '') = Inr ?b1"
    using wf on by (rule board_set_on_board)
  have wf1: "wf_board ?b1" using wf by (rule wf_board_put)
  from clear_neighbours_cells [OF wf1, of directions row col] obtain b2 where
    b2: "clear_neighbours directions ?b1 row col = Inr b2 \<and> wf_board b2 \<and>
      (\<forall>r c. on_board r c \<longrightarrow> cell b2 r c =
            (if (r - row, c - col) \<in> set directions \<and> \<not> py_in (cell ?b1 r c) ''Pp ''
             then CHR '' '' else cell ?b1 r c))" ..
  then have wf2: "wf_board b2" by simp
  have nk: "cell b2 (row + dr) (col + dc) \<noteq> CHR ''K'' \<and> cell b2 (row + dr) (col + dc) \<noteq> CHR ''k''"
    if d: "(dr, dc) \<in> set (directions @ [(0, 0)])" and o: "on_board (row + dr) (col + dc)"
    for dr dc
  proof -
    have c2: "cell b2 (row + dr) (col + dc) =
            (if (dr, dc) \<in> set directions \<and> \<not> py_in (cell ?b1 (row + dr) (col + dc)) ''Pp ''
             then CHR '' '' else cell ?b1 (row + dr) (col + dc))"
      using b2 o by simp
    have c1: "cell ?b1 (row + dr) (col + dc) =
        (if row + dr = row \<and> col + dc = col then CHR '' '' else cell (board s) (row + dr) (col + dc))"
      using wf on o by (rule cell_put)
    show ?thesis
    proof (cases "(dr, dc) \<in> set directions")
      case True
      then show ?thesis unfolding c2 by (auto simp: py_in_def)
    next
      case False
      with d have "dr = 0 \<and> dc = 0" by simp
      with False show ?thesis unfolding c2 c1 by simp
    qed
  qed
  have k: "king_in_range (directions @ [(0, 0)]) b2 row col (game_state s) = Inr (game_state s)"
    using wf2 nk by (rule king_in_range_no_king)
  from run b2 show ?thesis
    unfolding handle_explosion_def w by (auto simp: k)
qed

text \<open>So a successful call gives the win to the side that moved whenever a king is gone.\<close>

lemma make_move_game_state:
  assumes mm: "make_move s start endp = Inr (True, s')" and wf: "wf_board (board s)"
  shows "game_state s' =
           (if is_king_captured (board s')
            then (if turn s = WHITE then WHITE_WON else BLACK_WON) else UNFINISHED)"
proof -
  from mm wf obtain sr sc er ec s1 where
    un: "game_state s = UNFINISHED" and oe: "on_board er ec" and
    s1: "(if cell (board s) er ec \<noteq> CHR '' ''
      then handle_explosion (s\<lparr>board := relocate (board s) sr sc er ec\<rparr>) er ec
      else Inr (s\<lparr>board := relocate (board s) sr sc er ec\<rparr>)) = Inr s1"
    and s': "s' = finish_move s1"
    by (rule make_move_True)
  let ?m = "s\<lparr>board := relocate (board s) sr sc er ec\<rparr>"
  have wfm: "wf_board (board ?m)" using wf by (simp add: wf_board_relocate)
  have "game_state s1 = UNFINISHED \<and> turn s1 = turn s"
  proof (cases "cell (board s) er ec \<noteq> CHR '' ''")
    case True
    with s1 have run: "handle_explosion ?m er ec = Inr s1" by simp
    from handle_explosion_game_state [OF wfm oe run] handle_explosion_turn [OF run] un
    show ?thesis by simp
  next
    case False
    with s1 un show ?thesis by auto
  qed
  then show ?thesis
    unfolding s' finish_move_def Let_def by (cases "turn s") auto
qed

subsection \<open>What a board of a game holds, and where a call can raise\<close>

lemma pieces_only_put:
  assumes p: "pieces_only b" and v: "py_in v ''rnbqkpRNBQKP ''"
  shows "pieces_only (put b r c v)"
proof (cases "nat r < length b")
  case True
  let ?A = "\<lambda>x. py_in x ''rnbqkpRNBQKP ''"
  from p True have row: "list_all ?A (b ! nat r)"
    by (simp add: pieces_only_def list_all_length)
  have "set ((b ! nat r)[nat c := v]) \<subseteq> insert v (set (b ! nat r))"
    by (rule set_update_subset_insert)
  with row v have row': "list_all ?A ((b ! nat r)[nat c := v])"
    by (auto simp: list_all_iff)
  have "set (b[nat r := (b ! nat r)[nat c := v]]) \<subseteq> insert ((b ! nat r)[nat c := v]) (set b)"
    by (rule set_update_subset_insert)
  with p row' show ?thesis
    unfolding pieces_only_def put_def by (auto simp: list_all_iff)
next
  case False
  then have "b[nat r := (b ! nat r)[nat c := v]] = b" by (simp add: list_update_beyond)
  with p show ?thesis by (simp add: put_def)
qed

lemma pieces_only_cell:
  assumes wf: "wf_board b" and on: "on_board r c" and p: "pieces_only b"
  shows "py_in (cell b r c) ''rnbqkpRNBQKP ''"
proof -
  have i: "nat r < length b" using wf on by (auto simp: wf_board_def on_board_def)
  have j: "nat c < length (b ! nat r)"
    using on_board_row [OF wf on] on by (auto simp: on_board_def)
  from p i j show ?thesis
    by (simp add: pieces_only_def cell_def list_all_length)
qed

lemma blank_is_piece: "py_in (CHR '' '') ''rnbqkpRNBQKP ''"
  by (simp add: py_in_def)

lemma clear_neighbours_pieces_only:
  "wf_board b \<Longrightarrow> pieces_only b \<Longrightarrow> clear_neighbours ds b row col = Inr b' \<Longrightarrow>
   pieces_only b'"
proof (induction ds arbitrary: b)
  case Nil
  then show ?case by simp
next
  case (Cons d ds)
  obtain dr dc where d: "d = (dr, dc)" by (cases d)
  show ?case
  proof (cases "on_board (row + dr) (col + dc) \<and> \<not> py_in (cell b (row + dr) (col + dc)) ''Pp ''")
    case True
    then have on: "on_board (row + dr) (col + dc)"
      and np: "\<not> py_in (cell b (row + dr) (col + dc)) ''Pp ''" by simp_all
    let ?b1 = "put b (row + dr) (col + dc) (CHR '' '')"
    have wf1: "wf_board ?b1" using Cons.prems(1) by (rule wf_board_put)
    have p1: "pieces_only ?b1" using Cons.prems(2) blank_is_piece by (rule pieces_only_put)
    have "clear_neighbours ds ?b1 row col = Inr b'"
      using Cons.prems(3) unfolding d clear_neighbours_hit [OF Cons.prems(1) on np] .
    with wf1 p1 show ?thesis by (rule Cons.IH)
  next
    case False
    have "clear_neighbours ds b row col = Inr b'"
      using Cons.prems(3) unfolding d clear_neighbours_miss [OF Cons.prems(1) False] .
    with Cons.prems(1,2) show ?thesis by (rule Cons.IH)
  qed
qed

lemma handle_explosion_pieces_only:
  assumes wf: "wf_board (board s)" and on: "on_board row col" and p: "pieces_only (board s)"
    and run: "handle_explosion s row col = Inr s'"
  shows "pieces_only (board s')"
proof -
  let ?b1 = "put (board s) row col (CHR '' '')"
  have w: "board_set (board s) row col (CHR '' '') = Inr ?b1"
    using wf on by (rule board_set_on_board)
  have wf1: "wf_board ?b1" using wf by (rule wf_board_put)
  have p1: "pieces_only ?b1" using p blank_is_piece by (rule pieces_only_put)
  from run obtain b2 where b2: "clear_neighbours directions ?b1 row col = Inr b2"
    and s': "board s' = b2"
    unfolding handle_explosion_def w by (auto split: sum.splits)
  from wf1 p1 b2 have "pieces_only b2" by (rule clear_neighbours_pieces_only)
  then show ?thesis by (simp add: s')
qed

lemma make_move_pieces_only:
  assumes mm: "make_move s start endp = Inr (ok, s')" and wf: "wf_board (board s)"
    and p: "pieces_only (board s)"
  shows "pieces_only (board s')"
proof (cases ok)
  case False
  with mm have "make_move s start endp = Inr (False, s')" by simp
  then have "s' = s"
    by (auto simp: make_move_def Let_def split: sum.splits if_splits bool.splits prod.splits)
  with p show ?thesis by simp
next
  case True
  with mm have "make_move s start endp = Inr (True, s')" by simp
  from this wf obtain sr sc er ec s1 where
    os: "on_board sr sc" and oe: "on_board er ec" and
    s1: "(if cell (board s) er ec \<noteq> CHR '' ''
      then handle_explosion (s\<lparr>board := relocate (board s) sr sc er ec\<rparr>) er ec
      else Inr (s\<lparr>board := relocate (board s) sr sc er ec\<rparr>)) = Inr s1"
    and s': "s' = finish_move s1"
    by (rule make_move_True)
  let ?m = "s\<lparr>board := relocate (board s) sr sc er ec\<rparr>"
  have wfm: "wf_board (board ?m)" using wf by (simp add: wf_board_relocate)
  have "pieces_only (put (board s) er ec (cell (board s) sr sc))"
    using p pieces_only_cell [OF wf os p] by (rule pieces_only_put)
  then have pm: "pieces_only (board ?m)"
    unfolding relocate_def using blank_is_piece by (simp add: pieces_only_put)
  have "pieces_only (board s1)"
  proof (cases "cell (board s) er ec \<noteq> CHR '' ''")
    case True
    with s1 have "handle_explosion ?m er ec = Inr s1" by simp
    with wfm oe pm show ?thesis by (rule handle_explosion_pieces_only)
  next
    case False
    with s1 pm show ?thesis by auto
  qed
  then show ?thesis by (simp add: s' board_finish_move)
qed

lemma pieces_only_init: "pieces_only (board init)"
  by (simp add: init_def initialize_board_def pieces_only_def py_in_def)

lemma reachable_pieces_only: "reachable s \<Longrightarrow> pieces_only (board s)"
proof (induction rule: reachable.induct)
  case reachable_init
  show ?case by (rule pieces_only_init)
next
  case (reachable_move s start endp ok s')
  from reachable_move.hyps(2) reachable_wf_board [OF reachable_move.hyps(1)] reachable_move.IH
  show ?case by (rule make_move_pieces_only)
qed

text \<open>On a board of a game, an exception can only come from the validation.\<close>

lemma make_move_raises_in_validation:
  assumes wf: "wf_board (board s)" and raises: "make_move s start endp = Inl e"
  shows "is_valid_move s start endp = Inl e"
proof (cases "is_valid_move s start endp")
  case (Inl e')
  with raises show ?thesis by (auto simp: make_move_def split: if_splits)
next
  case (Inr ok)
  from raises have un: "game_state s = UNFINISHED"
    by (auto simp: make_move_def split: if_splits)
  show ?thesis
  proof (cases ok)
    case False
    with Inr raises un show ?thesis by (simp add: make_move_def)
  next
    case True
    with Inr have v: "is_valid_move s start endp = Inr True" by simp
    from v obtain sr sc er ec where
      cs: "convert_to_indices start = Inr (sr, sc)" and ce: "convert_to_indices endp = Inr (er, ec)"
      and os: "on_board sr sc" and oe: "on_board er ec"
      by (rule is_valid_move_True)
    have g1: "board_get (board s) sr sc = Inr (cell (board s) sr sc)"
      using wf os by (rule board_get_on_board)
    have g2: "board_get (board s) er ec = Inr (cell (board s) er ec)"
      using wf oe by (rule board_get_on_board)
    have w1: "board_set (board s) er ec (cell (board s) sr sc)
                = Inr (put (board s) er ec (cell (board s) sr sc))"
      using wf oe by (rule board_set_on_board)
    have w2: "board_set (put (board s) er ec (cell (board s) sr sc)) sr sc (CHR '' '')
                = Inr (relocate (board s) sr sc er ec)"
      unfolding relocate_def using wf_board_put [OF wf] os by (rule board_set_on_board)
    let ?m = "s\<lparr>board := relocate (board s) sr sc er ec\<rparr>"
    have wfm: "wf_board (board ?m)" using wf by (simp add: wf_board_relocate)
    from handle_explosion_cells [OF wfm oe] obtain s1 where
      "handle_explosion ?m er ec = Inr s1" by blast
    with raises have False
      unfolding make_move_def
      by (cases "cell (board s) er ec = CHR '' ''") (auto simp add: un v cs ce g1 g2 w1 w2 Let_def)
    then show ?thesis ..
  qed
qed

subsection \<open>The example positions\<close>

lemma positions_played:
  "play init [(''b1'', ''c3''), (''a7'', ''a6''), (''c3'', ''d5''), (''a6'', ''a5'')]
     = Inr after_Nd5_a5"
  "play init [(''b1'', ''c3''), (''e7'', ''e6''), (''c3'', ''d5''), (''a7'', ''a6''),
              (''d5'', ''e7'')] = Inr after_Ne7"
  "play init [(''d2'', ''d3''), (''a7'', ''a6'')] = Inr after_d3_a6"
  by code_simp+

lemma wf_board_positions:
  "wf_board (board after_Nd5_a5)" "wf_board (board after_Ne7)" "wf_board (board after_d3_a6)"
  by (simp_all add: after_Nd5_a5_def after_Ne7_def after_d3_a6_def wf_board_def)

section \<open>The claims\<close>

subsection \<open>Game over and turns\<close>

text \<open>
  C8. Once the game state is no longer UNFINISHED, every call of \<open>make_move\<close> returns
  False and leaves the board, the turn and the game state as they were.
\<close>

theorem make_move_after_game_over:
  "game_state s \<noteq> UNFINISHED \<Longrightarrow> make_move s start endp = Inr (False, s)"
  by (simp add: make_move_def)

theorem make_move_after_game_over_witness:
  "game_state (init\<lparr>game_state := BLACK_WON\<rparr>) \<noteq> UNFINISHED
   \<and> make_move (init\<lparr>game_state := BLACK_WON\<rparr>) ''d2'' ''d4''
       = Inr (False, init\<lparr>game_state := BLACK_WON\<rparr>)"
  using make_move_after_game_over [of "init\<lparr>game_state := BLACK_WON\<rparr>" "''d2''" "''d4''"]
  by simp

text \<open>
  C9. The turn changes exactly when \<open>make_move\<close> returns True: a call that returns True
  hands the turn to the other colour, a call that returns False leaves it alone.
\<close>

theorem make_move_turn:
  "make_move s start endp = Inr (ok, s') \<Longrightarrow>
   turn s' = (if ok then (if turn s = WHITE then BLACK else WHITE) else turn s)
   \<and> (turn s' \<noteq> turn s) = ok"
  by (auto simp: make_move_def Let_def dest!: handle_explosion_turn
           split: sum.splits if_splits bool.splits prod.splits)

theorem make_move_turn_witness:
  "make_move init ''d2'' ''d4'' =
     Inr (True, \<lparr>board = [''rnbqkbnr'', ''pppppppp'', ''        '', ''        '',
                          ''   P    '', ''        '', ''PPP PPPP'', ''RNBQKBNR''],
                 turn = BLACK, game_state = UNFINISHED\<rparr>)
   \<and> turn \<lparr>board = [''rnbqkbnr'', ''pppppppp'', ''        '', ''        '',
                     ''   P    '', ''        '', ''PPP PPPP'', ''RNBQKBNR''],
            turn = BLACK, game_state = UNFINISHED\<rparr> \<noteq> turn init"
proof -
  have h: "make_move init ''d2'' ''d4'' =
     Inr (True, \<lparr>board = [''rnbqkbnr'', ''pppppppp'', ''        '', ''        '',
                          ''   P    '', ''        '', ''PPP PPPP'', ''RNBQKBNR''],
                 turn = BLACK, game_state = UNFINISHED\<rparr>)"
    by code_simp
  from make_move_turn [OF h] h show ?thesis by simp
qed

subsection \<open>The outcome of a game\<close>

text \<open>
  C1. After 1. Nc3 e6 2. Nd5 a6 3. Ne7 the black queen takes the knight on e7. The blast
  removes the black king on e8; the white king stands on e1. The call returns True and
  the game state is BLACK_WON: the side that moved is given the win, although the king
  that is gone is its own.
\<close>

theorem lost_own_king_mover_wins:
  "play init [(''b1'', ''c3''), (''e7'', ''e6''), (''c3'', ''d5''), (''a7'', ''a6''),
              (''d5'', ''e7'')] = Inr after_Ne7
   \<and> make_move after_Ne7 ''d8'' ''e7''
     = Inr (True, \<lparr>board = [''rnb   nr'', '' ppp ppp'', ''p   p   '', ''        '',
                            ''        '', ''        '', ''PPPPPPPP'', ''R BQKBNR''],
                   turn = WHITE, game_state = BLACK_WON\<rparr>)"
  by code_simp

text \<open>
  C2. After 1. Nc3 a6 2. Nd5 a5 the white knight takes the pawn on e7; the black king on
  e8 is next to the centre of the blast. \<open>_handle_explosion\<close>, called on the board with
  the knight already on e7, clears the squares and returns with the game state still
  UNFINISHED: its king test reads the squares after they have been cleared.
\<close>

theorem explosion_leaves_outcome_unset:
  "relocate (board after_Nd5_a5) 3 3 1 4
     = [''rnbqkbnr'', '' pppNppp'', ''        '', ''p       '',
        ''        '', ''        '', ''PPPPPPPP'', ''R BQKBNR'']
   \<and> board_get [''rnbqkbnr'', '' pppNppp'', ''        '', ''p       '',
                ''        '', ''        '', ''PPPPPPPP'', ''R BQKBNR''] 0 4 = Inr (CHR ''k'')
   \<and> handle_explosion
       \<lparr>board = [''rnbqkbnr'', '' pppNppp'', ''        '', ''p       '',
                  ''        '', ''        '', ''PPPPPPPP'', ''R BQKBNR''],
        turn = WHITE, game_state = UNFINISHED\<rparr> 1 4
     = Inr \<lparr>board = [''rnb   nr'', '' ppp ppp'', ''        '', ''p       '',
                      ''        '', ''        '', ''PPPPPPPP'', ''R BQKBNR''],
             turn = WHITE, game_state = UNFINISHED\<rparr>"
  by code_simp

subsection \<open>Notation off the board\<close>

text \<open>
  C3. From the initial position, a start square of rank 0 or of file i makes
  \<open>make_move\<close> raise IndexError, and a notation that is not a letter and a digit makes it
  raise ValueError: the board is read before the coordinates are tested.
\<close>

theorem make_move_raises_off_board:
  "make_move init ''a0'' ''a1'' = Inl IndexError
   \<and> make_move init ''i1'' ''a1'' = Inl IndexError
   \<and> make_move init ''d2'' ''dx'' = Inl ValueError"
  by code_simp

subsection \<open>Pawns\<close>

text \<open>
  C4, as the code has it. For a pawn of the side to move, between two squares of the
  board: one square diagonally forward is valid exactly when the end square is occupied,
  by a piece of either colour; one square straight forward is valid exactly when the end
  square is blank; two squares straight forward from the home row are valid exactly when
  the square passed and the end square are blank; nothing else is valid. Forward is
  towards row 0 for White and towards row 7 for Black.
\<close>

theorem pawn_move_valid_iff:
  assumes wf: "wf_board (board s)"
    and cs: "convert_to_indices start = Inr (sr, sc)"
    and ce: "convert_to_indices endp = Inr (er, ec)"
    and os: "on_board sr sc" and oe: "on_board er ec"
    and pawn: "cell (board s) sr sc = (if turn s = WHITE then CHR ''P'' else CHR ''p'')"
    and fwd: "fwd = (if turn s = WHITE then -1 else 1)"
    and home: "home = (if turn s = WHITE then 6 else 1)"
  shows "is_valid_move s start endp
         = Inr (if er = sr + fwd \<and> \<bar>ec - sc\<bar> = 1 then cell (board s) er ec \<noteq> CHR '' ''
                else if er = sr + fwd \<and> ec = sc then cell (board s) er ec = CHR '' ''
                else if sr = home \<and> er = sr + 2 * fwd \<and> ec = sc
                then cell (board s) (sr + fwd) sc = CHR '' '' \<and> cell (board s) er ec = CHR '' ''
                else False)"
proof (cases "turn s")
  case WHITE
  with pawn have p: "cell (board s) sr sc = CHR ''P''" by simp
  show ?thesis
    unfolding is_valid_move_on_board [OF wf cs ce os oe] p
      pawn_block_white [OF wf os oe] after_pawn_block_pawn fwd home
    using WHITE by (auto simp: letters_upper letters_islower letters_isupper)
next
  case BLACK
  with pawn have p: "cell (board s) sr sc = CHR ''p''" by simp
  show ?thesis
    unfolding is_valid_move_on_board [OF wf cs ce os oe] p
      pawn_block_black [OF wf os oe] fwd home
    using BLACK by (auto simp: letters_upper letters_islower letters_isupper)
qed

theorem pawn_move_valid_iff_witness:
  "wf_board (board init)
   \<and> convert_to_indices ''e2'' = Inr (6, 4)
   \<and> convert_to_indices ''e4'' = Inr (4, 4)
   \<and> on_board 6 4 \<and> on_board 4 4
   \<and> cell (board init) 6 4 = (if turn init = WHITE then CHR ''P'' else CHR ''p'')
   \<and> (-1::int) = (if turn init = WHITE then -1 else 1)
   \<and> (6::int) = (if turn init = WHITE then 6 else 1)
   \<and> is_valid_move init ''e2'' ''e4''
         = Inr (if (4::int) = 6 + -1 \<and> \<bar>(4::int) - 4\<bar> = 1 then cell (board init) 4 4 \<noteq> CHR '' ''
                else if (4::int) = 6 + -1 \<and> (4::int) = 4 then cell (board init) 4 4 = CHR '' ''
                else if (6::int) = 6 \<and> (4::int) = 6 + 2 * -1 \<and> (4::int) = 4
                then cell (board init) (6 + -1) 4 = CHR '' '' \<and> cell (board init) 4 4 = CHR '' ''
                else False)
   \<and> is_valid_move init ''e2'' ''e4'' = Inr True"
proof -
  have h1: "wf_board (board init)" by (rule wf_board_init)
  have h2: "convert_to_indices ''e2'' = Inr (6, 4)" by code_simp
  have h3: "convert_to_indices ''e4'' = Inr (4, 4)" by code_simp
  have h4: "on_board 6 4" by (simp add: on_board_def)
  have h5: "on_board 4 4" by (simp add: on_board_def)
  have h6: "cell (board init) 6 4 = (if turn init = WHITE then CHR ''P'' else CHR ''p'')"
    by (simp add: init_def initialize_board_def cell_def)
  have h7: "(-1::int) = (if turn init = WHITE then -1 else 1)" by (simp add: init_def)
  have h8: "(6::int) = (if turn init = WHITE then 6 else 1)" by (simp add: init_def)
  have h9: "is_valid_move init ''e2'' ''e4'' = Inr True" by code_simp
  note c = pawn_move_valid_iff [OF h1 h2 h3 h4 h5 h6 h7 h8]
  show ?thesis
    by (intro conjI) (rule h1 h2 h3 h4 h5 h6 h7 h8 h9 c)+
qed

text \<open>
  C4, as it is stated, fails after 1. d3 a6: the white pawn on e2 may take the white pawn
  on d3.
\<close>

theorem pawn_takes_own_pawn:
  "play init [(''d2'', ''d3''), (''a7'', ''a6'')] = Inr after_d3_a6
   \<and> turn after_d3_a6 = WHITE
   \<and> board_get (board after_d3_a6) 6 4 = Inr (CHR ''P'')
   \<and> board_get (board after_d3_a6) 5 3 = Inr (CHR ''P'')
   \<and> is_valid_move after_d3_a6 ''e2'' ''d3'' = Inr True"
  by code_simp

subsection \<open>Knights\<close>

text \<open>
  C5, as the code has it. For a knight of the side to move, between two squares of the
  board, the move is valid exactly when the row and column deltas are 2 and 1 in some
  order, whatever stands on the end square: nothing, an enemy piece or a piece of the
  mover's own colour.
\<close>

theorem knight_move_valid_iff:
  assumes wf: "wf_board (board s)"
    and cs: "convert_to_indices start = Inr (sr, sc)"
    and ce: "convert_to_indices endp = Inr (er, ec)"
    and os: "on_board sr sc" and oe: "on_board er ec"
    and knight: "cell (board s) sr sc = (if turn s = WHITE then CHR ''N'' else CHR ''n'')"
  shows "is_valid_move s start endp
         = Inr ((\<bar>er - sr\<bar> = 2 \<and> \<bar>ec - sc\<bar> = 1) \<or> (\<bar>er - sr\<bar> = 1 \<and> \<bar>ec - sc\<bar> = 2))"
  unfolding is_valid_move_on_board [OF wf cs ce os oe] knight after_pawn_block_def Let_def
  by (cases "turn s") (auto simp: letters_upper letters_islower letters_isupper)

theorem knight_move_valid_iff_witness:
  "wf_board (board init)
   \<and> convert_to_indices ''b1'' = Inr (7, 1)
   \<and> convert_to_indices ''c3'' = Inr (5, 2)
   \<and> on_board 7 1 \<and> on_board 5 2
   \<and> cell (board init) 7 1 = (if turn init = WHITE then CHR ''N'' else CHR ''n'')
   \<and> is_valid_move init ''b1'' ''c3''
         = Inr ((\<bar>(5::int) - 7\<bar> = 2 \<and> \<bar>(2::int) - 1\<bar> = 1) \<or> (\<bar>(5::int) - 7\<bar> = 1 \<and> \<bar>(2::int) - 1\<bar> = 2))
   \<and> is_valid_move init ''b1'' ''c3'' = Inr True"
proof -
  have h1: "wf_board (board init)" by (rule wf_board_init)
  have h2: "convert_to_indices ''b1'' = Inr (7, 1)" by code_simp
  have h3: "convert_to_indices ''c3'' = Inr (5, 2)" by code_simp
  have h4: "on_board 7 1" by (simp add: on_board_def)
  have h5: "on_board 5 2" by (simp add: on_board_def)
  have h6: "cell (board init) 7 1 = (if turn init = WHITE then CHR ''N'' else CHR ''n'')"
    by (simp add: init_def initialize_board_def cell_def)
  have h7: "is_valid_move init ''b1'' ''c3'' = Inr True" by code_simp
  note c = knight_move_valid_iff [OF h1 h2 h3 h4 h5 h6]
  show ?thesis
    by (intro conjI) (rule h1 h2 h3 h4 h5 h6 h7 c)+
qed

text \<open>
  C5, as it is stated, fails in the initial position: the knight on b1 may take the white
  pawn on d2.
\<close>

theorem knight_takes_own_pawn:
  "turn init = WHITE
   \<and> board_get (board init) 7 1 = Inr (CHR ''N'')
   \<and> board_get (board init) 6 3 = Inr (CHR ''P'')
   \<and> is_valid_move init ''b1'' ''d2'' = Inr True"
  by code_simp

subsection \<open>Bishops, rooks and queens\<close>

text \<open>
  C7. For a bishop, rook or queen of the side to move, between two different squares of
  the board, the move is valid exactly when the squares are on a line of travel of the
  piece and every square strictly between them is blank. So an occupied square in
  between rejects the move whatever the colour of its occupant, and with a clear path a
  bishop needs deltas of equal size, a rook exactly one zero delta, a queen either.
\<close>

theorem sliding_move_valid_iff:
  assumes wf: "wf_board (board s)"
    and cs: "convert_to_indices start = Inr (sr, sc)"
    and ce: "convert_to_indices endp = Inr (er, ec)"
    and os: "on_board sr sc" and oe: "on_board er ec"
    and ne: "(sr, sc) \<noteq> (er, ec)"
    and piece: "cell (board s) sr sc \<in>
                  (if turn s = WHITE then {CHR ''B'', CHR ''R'', CHR ''Q''}
                   else {CHR ''b'', CHR ''r'', CHR ''q''})"
  shows "is_valid_move s start endp
         = Inr (line_of_travel (cell (board s) sr sc) (er - sr) (ec - sc)
                \<and> (\<forall>(r, c) \<in> set (squares_between sr sc er ec).
                      cell (board s) r c = CHR '' ''))"
proof -
  let ?p = "cell (board s) sr sc"
  have kind: "upper ?p = CHR ''B'' \<or> upper ?p = CHR ''R'' \<or> upper ?p = CHR ''Q''"
    using piece by (auto simp: letters_upper split: if_splits)
  have mine: "\<not> ((turn s = WHITE \<and> islower ?p) \<or> (turn s = BLACK \<and> isupper ?p))"
    using piece by (cases "turn s") (auto simp: letters_islower letters_isupper)
  have after: "after_pawn_block (board s) ?p sr sc er ec
               = is_valid_bishop_rook_queen_move (board s) ?p sr sc er ec"
    using kind unfolding after_pawn_block_def Let_def by auto
  have "is_valid_move s start endp = is_valid_bishop_rook_queen_move (board s) ?p sr sc er ec"
    unfolding is_valid_move_on_board [OF wf cs ce os oe]
    using kind mine ne after by auto
  then show ?thesis
    unfolding brq_on_board [OF wf os oe ne kind] .
qed

theorem sliding_move_valid_iff_witness:
  "wf_board (board init)
   \<and> convert_to_indices ''a1'' = Inr (7, 0)
   \<and> convert_to_indices ''a3'' = Inr (5, 0)
   \<and> on_board 7 0 \<and> on_board 5 0
   \<and> ((7::int), (0::int)) \<noteq> (5, 0)
   \<and> cell (board init) 7 0 \<in>
                  (if turn init = WHITE then {CHR ''B'', CHR ''R'', CHR ''Q''}
                   else {CHR ''b'', CHR ''r'', CHR ''q''})
   \<and> is_valid_move init ''a1'' ''a3''
         = Inr (line_of_travel (cell (board init) 7 0) (5 - 7) (0 - 0)
                \<and> (\<forall>(r, c) \<in> set (squares_between 7 0 5 0).
                      cell (board init) r c = CHR '' ''))
   \<and> squares_between 7 0 5 0 = [(6, 0)]
   \<and> cell (board init) 6 0 = CHR ''P''
   \<and> is_valid_move init ''a1'' ''a3'' = Inr False"
proof -
  have h1: "wf_board (board init)" by (rule wf_board_init)
  have h2: "convert_to_indices ''a1'' = Inr (7, 0)" by code_simp
  have h3: "convert_to_indices ''a3'' = Inr (5, 0)" by code_simp
  have h4: "on_board 7 0" by (simp add: on_board_def)
  have h5: "on_board 5 0" by (simp add: on_board_def)
  have h6: "((7::int), (0::int)) \<noteq> (5, 0)" by simp
  have h7: "cell (board init) 7 0 \<in>
                  (if turn init = WHITE then {CHR ''B'', CHR ''R'', CHR ''Q''}
                   else {CHR ''b'', CHR ''r'', CHR ''q''})"
    by (simp add: init_def initialize_board_def cell_def)
  have h8: "squares_between 7 0 5 0 = [(6, 0)]" by code_simp
  have h9: "cell (board init) 6 0 = CHR ''P''"
    by (simp add: init_def initialize_board_def cell_def)
  have h10: "is_valid_move init ''a1'' ''a3'' = Inr False" by code_simp
  note c = sliding_move_valid_iff [OF h1 h2 h3 h4 h5 h6 h7]
  show ?thesis
    by (intro conjI) (rule h1 h2 h3 h4 h5 h6 h7 h8 h9 h10 c)+
qed

subsection \<open>Captures and the number of pieces\<close>

text \<open>
  C6. When \<open>make_move\<close> succeeds on a move whose end square was occupied, the board it
  leaves is the board with the piece moved, changed by the explosion as follows: the end
  square (where the capturing piece stood, pawn or not, in place of the captured one) is
  blank; every square next to it that held neither a white nor a black pawn is blank;
  every other square, so every pawn next to the end square and everything outside the
  blast, is as it was.
\<close>

theorem explosion_clears_blast_zone:
  assumes wf: "wf_board (board s)"
    and mm: "make_move s start endp = Inr (True, s')"
    and cs: "convert_to_indices start = Inr (sr, sc)"
    and ce: "convert_to_indices endp = Inr (er, ec)"
    and capture: "cell (board s) er ec \<noteq> CHR '' ''"
    and rc: "on_board r c"
  shows "cell (board s') r c =
           (if r = er \<and> c = ec then CHR '' ''
            else if neighbour r c er ec
                    \<and> cell (relocate (board s) sr sc er ec) r c \<noteq> CHR ''P''
                    \<and> cell (relocate (board s) sr sc er ec) r c \<noteq> CHR ''p''
            then CHR '' ''
            else cell (relocate (board s) sr sc er ec) r c)"
proof -
  from mm wf obtain sr' sc' er' ec' s1 where
    cs': "convert_to_indices start = Inr (sr', sc')" and
    ce': "convert_to_indices endp = Inr (er', ec')" and
    oe: "on_board er' ec'" and
    s1: "(if cell (board s) er' ec' \<noteq> CHR '' ''
      then handle_explosion (s\<lparr>board := relocate (board s) sr' sc' er' ec'\<rparr>) er' ec'
      else Inr (s\<lparr>board := relocate (board s) sr' sc' er' ec'\<rparr>)) = Inr s1"
    and s': "s' = finish_move s1"
    by (rule make_move_True)
  from cs cs' ce ce' have eq: "sr' = sr" "sc' = sc" "er' = er" "ec' = ec" by simp_all
  let ?m = "s\<lparr>board := relocate (board s) sr sc er ec\<rparr>"
  have wfm: "wf_board (board ?m)" using wf by (simp add: wf_board_relocate)
  from s1 capture have run: "handle_explosion ?m er ec = Inr s1" by (simp add: eq)
  from handle_explosion_cells [OF wfm, of er ec] oe run rc
  have "cell (board s1) r c =
            (if r = er \<and> c = ec then CHR '' ''
             else if neighbour r c er ec \<and> \<not> py_in (cell (board ?m) r c) ''Pp ''
             then CHR '' '' else cell (board ?m) r c)"
    by (auto simp: eq)
  then show ?thesis by (auto simp: s' board_finish_move py_in_def)
qed

theorem explosion_clears_blast_zone_witness:
  "wf_board (board after_Nd5_a5)
   \<and> make_move after_Nd5_a5 ''d5'' ''e7''
       = Inr (True, \<lparr>board = [''rnb   nr'', '' ppp ppp'', ''        '', ''p       '',
                              ''        '', ''        '', ''PPPPPPPP'', ''R BQKBNR''],
                     turn = BLACK, game_state = WHITE_WON\<rparr>)
   \<and> convert_to_indices ''d5'' = Inr (3, 3)
   \<and> convert_to_indices ''e7'' = Inr (1, 4)
   \<and> cell (board after_Nd5_a5) 1 4 \<noteq> CHR '' ''
   \<and> on_board 0 3
   \<and> cell (board \<lparr>board = [''rnb   nr'', '' ppp ppp'', ''        '', ''p       '',
                            ''        '', ''        '', ''PPPPPPPP'', ''R BQKBNR''],
                   turn = BLACK, game_state = WHITE_WON\<rparr>) 0 3 =
           (if (0::int) = 1 \<and> (3::int) = 4 then CHR '' ''
            else if neighbour 0 3 1 4
                    \<and> cell (relocate (board after_Nd5_a5) 3 3 1 4) 0 3 \<noteq> CHR ''P''
                    \<and> cell (relocate (board after_Nd5_a5) 3 3 1 4) 0 3 \<noteq> CHR ''p''
            then CHR '' ''
            else cell (relocate (board after_Nd5_a5) 3 3 1 4) 0 3)
   \<and> cell (relocate (board after_Nd5_a5) 3 3 1 4) 0 3 = CHR ''q''"
proof -
  have h1: "wf_board (board after_Nd5_a5)" by (rule wf_board_positions)
  have h2: "make_move after_Nd5_a5 ''d5'' ''e7''
       = Inr (True, \<lparr>board = [''rnb   nr'', '' ppp ppp'', ''        '', ''p       '',
                              ''        '', ''        '', ''PPPPPPPP'', ''R BQKBNR''],
                     turn = BLACK, game_state = WHITE_WON\<rparr>)"
    by code_simp
  have h3: "convert_to_indices ''d5'' = Inr (3, 3)" by code_simp
  have h4: "convert_to_indices ''e7'' = Inr (1, 4)" by code_simp
  have h5: "cell (board after_Nd5_a5) 1 4 \<noteq> CHR '' ''"
    by (simp add: after_Nd5_a5_def cell_def)
  have h6: "on_board 0 3" by (simp add: on_board_def)
  have h7: "cell (relocate (board after_Nd5_a5) 3 3 1 4) 0 3 = CHR ''q''"
    by (simp add: after_Nd5_a5_def relocate_def put_def cell_def)
  note c = explosion_clears_blast_zone [OF h1 h2 h3 h4 h5 h6]
  show ?thesis
    by (intro conjI) (rule h1 h2 h3 h4 h5 h6 h7 c)+
qed

text \<open>
  C10. From the initial position on, no call of \<open>make_move\<close> raises the number of
  occupied cells: a move keeps it, a capture with its explosion lowers it, a rejected
  move changes nothing.
\<close>

theorem occupied_never_increases:
  "reachable s \<Longrightarrow> make_move s start endp = Inr (ok, s') \<Longrightarrow>
   occupied (board s') \<le> occupied (board s)"
  by (rule make_move_occupied) (auto dest: reachable_wf_board)

theorem occupied_never_increases_witness:
  "reachable init
   \<and> make_move init ''b1'' ''d2'' =
       Inr (True, \<lparr>board = [''rnbqkbnr'', ''pppppppp'', ''        '', ''        '',
                            ''        '', ''        '', ''PPP PPPP'', ''R    BNR''],
                   turn = BLACK, game_state = WHITE_WON\<rparr>)
   \<and> occupied (board \<lparr>board = [''rnbqkbnr'', ''pppppppp'', ''        '', ''        '',
                                ''        '', ''        '', ''PPP PPPP'', ''R    BNR''],
                       turn = BLACK, game_state = WHITE_WON\<rparr>)
       \<le> occupied (board init)"
proof -
  have h: "make_move init ''b1'' ''d2'' =
       Inr (True, \<lparr>board = [''rnbqkbnr'', ''pppppppp'', ''        '', ''        '',
                            ''        '', ''        '', ''PPP PPPP'', ''R    BNR''],
                   turn = BLACK, game_state = WHITE_WON\<rparr>)"
    by code_simp
  note c = occupied_never_increases [OF reachable_init h]
  show ?thesis
    by (intro conjI) (rule reachable_init h c)+
qed

end
